theory Spec2Isabelle
  imports Main "HOL-Library.Sublist"
begin

section \<open>Text: Python strings as sequences of code points\<close>

text \<open>
  A Python \<open>str\<close> is a sequence of Unicode code points, so a string is a list of
  natural numbers and \<open>len\<close> is \<open>length\<close>. An ASCII literal is written
  \<open>ascii ''...''\<close>; the line feed is the code point 10.
\<close>

type_synonym ustring = "nat list"

definition ascii :: "string \<Rightarrow> ustring" where
  "ascii s = map of_char s"

text \<open>
  Two tables of the interpreter are not part of the program: which code points beyond
  ASCII are decimal digits (the class \<open>\d\<close> of \<open>re\<close>, also what \<open>int\<close>
  accepts), and what \<open>str.lower\<close> does to a string with a character beyond ASCII.
  Both are parameters of the model; on ASCII text nothing depends on them.
\<close>

record unicode =
  decimal_ext :: "nat \<Rightarrow> nat option"
  lower_ext :: "ustring \<Rightarrow> ustring"

definition ascii_only :: unicode where
  "ascii_only = \<lparr>decimal_ext = (\<lambda>c. None), lower_ext = (\<lambda>s. s)\<rparr>"

text \<open>The white space of \<open>str.strip\<close> and of the class \<open>\s\<close>.\<close>

definition is_space :: "nat \<Rightarrow> bool" where
  "is_space c =
     ((9 \<le> c \<and> c \<le> 13) \<or> (28 \<le> c \<and> c \<le> 32) \<or> c = 133 \<or> c = 160 \<or> c = 5760
      \<or> (8192 \<le> c \<and> c \<le> 8202) \<or> c = 8232 \<or> c = 8233 \<or> c = 8239 \<or> c = 8287
      \<or> c = 12288)"

text \<open>
  The decimal value of a code point, if it is a decimal digit. No white space is a
  decimal digit, and a digit has a value below ten, whatever the table says.
\<close>

definition digit_value :: "unicode \<Rightarrow> nat \<Rightarrow> nat option" where
  "digit_value U c =
     (if c < 128 then (if 48 \<le> c \<and> c \<le> 57 then Some (c - 48) else None)
      else if is_space c then None
      else (case decimal_ext U c of
              None \<Rightarrow> None
            | Some v \<Rightarrow> if v < 10 then Some v else None))"

definition is_digit :: "unicode \<Rightarrow> nat \<Rightarrow> bool" where
  "is_digit U c = (digit_value U c \<noteq> None)"

definition strip :: "ustring \<Rightarrow> ustring" where
  "strip s = rev (dropWhile is_space (rev (dropWhile is_space s)))"

text \<open>\<open>s.split("\n")\<close>: always at least one piece.\<close>

fun split_lines :: "ustring \<Rightarrow> ustring list" where
  "split_lines [] = [[]]"
| "split_lines (c # cs) =
     (if c = 10 then [] # split_lines cs
      else (case split_lines cs of
              [] \<Rightarrow> [[c]]
            | l # ls \<Rightarrow> (c # l) # ls))"

text \<open>\<open>s.replace("\n", " ")\<close>.\<close>

definition replace_newlines :: "ustring \<Rightarrow> ustring" where
  "replace_newlines s = map (\<lambda>c. if c = 10 then 32 else c) s"

definition lower :: "unicode \<Rightarrow> ustring \<Rightarrow> ustring" where
  "lower U s =
     (if list_all (\<lambda>c. c < 128) s
      then map (\<lambda>c. if 65 \<le> c \<and> c \<le> 90 then c + 32 else c) s
      else lower_ext U s)"

text \<open>\<open>max(lines, key=len)\<close>: the first of the longest elements.\<close>

fun longest_from :: "ustring \<Rightarrow> ustring list \<Rightarrow> ustring" where
  "longest_from best [] = best"
| "longest_from best (l # ls) =
     (if length best < length l then longest_from l ls else longest_from best ls)"

datatype exn =
    NoSuchElementException
  | StaleElementReferenceException
  | TimeoutException
  | WebDriverException
  | ValueError
  | IndexError

definition max_by_len :: "ustring list \<Rightarrow> exn + ustring" where
  "max_by_len ls = (case ls of [] \<Rightarrow> Inl ValueError | l # rest \<Rightarrow> Inr (longest_from l rest))"

text \<open>
  \<open>int(s)\<close> on a string of decimal digits (the only strings the program passes to it);
  anything else raises.
\<close>

definition int_of_digits :: "unicode \<Rightarrow> ustring \<Rightarrow> exn + int" where
  "int_of_digits U s =
     (if s \<noteq> [] \<and> list_all (is_digit U) s
      then Inr (foldl (\<lambda>a c. 10 * a + int (case digit_value U c of None \<Rightarrow> 0 | Some v \<Rightarrow> v)) 0 s)
      else Inl ValueError)"

section \<open>Regular expressions: the fragment the program uses\<close>

text \<open>
  \<open>re\<close> matches by backtracking: an optional part and a repetition are greedy, and the
  first way that succeeds wins. \<open>rx_match r s\<close> lists what is left of \<open>s\<close> after
  each way of matching \<open>r\<close> at its start, in the order the matcher tries them.
\<close>

datatype rx =
    Cls "nat \<Rightarrow> bool"
  | Cat rx rx
  | Opt rx
  | Many "nat \<Rightarrow> bool"

fun many :: "(nat \<Rightarrow> bool) \<Rightarrow> ustring \<Rightarrow> ustring list" where
  "many p [] = [[]]"
| "many p (c # cs) = (if p c then many p cs @ [c # cs] else [c # cs])"

fun rx_match :: "rx \<Rightarrow> ustring \<Rightarrow> ustring list" where
  "rx_match (Cls p) s = (case s of [] \<Rightarrow> [] | c # cs \<Rightarrow> if p c then [cs] else [])"
| "rx_match (Cat a b) s = concat (map (rx_match b) (rx_match a s))"
| "rx_match (Opt a) s = rx_match a s @ [s]"
| "rx_match (Many p) s = many p s"

text \<open>
  \<open>re.search(r, s)\<close>: the first start position with a match, from the left, the end
  of the string included; the result is \<open>group(0)\<close>.
\<close>

fun rx_search :: "rx \<Rightarrow> ustring \<Rightarrow> ustring option" where
  "rx_search r [] = (case rx_match r [] of [] \<Rightarrow> None | rest # _ \<Rightarrow> Some [])"
| "rx_search r (c # cs) =
     (case rx_match r (c # cs) of
        [] \<Rightarrow> rx_search r cs
      | rest # _ \<Rightarrow> Some (take (length (c # cs) - length rest) (c # cs)))"

text \<open>\<open>[$\<euro>\<pounds>]?\s*\d+\.\d{2}\<close>\<close>

definition is_currency :: "nat \<Rightarrow> bool" where
  "is_currency c = (c = 36 \<or> c = 8364 \<or> c = 163)"

definition price_rx :: "unicode \<Rightarrow> rx" where
  "price_rx U =
     Cat (Opt (Cls is_currency))
       (Cat (Many is_space)
         (Cat (Cat (Cls (is_digit U)) (Many (is_digit U)))
           (Cat (Cls (\<lambda>c. c = 46))
             (Cat (Cls (is_digit U)) (Cls (is_digit U))))))"

text \<open>\<open>(20\d{2})\<close>: the group is the whole match.\<close>

definition year_rx :: "unicode \<Rightarrow> rx" where
  "year_rx U =
     Cat (Cls (\<lambda>c. c = 50))
       (Cat (Cls (\<lambda>c. c = 48))
         (Cat (Cls (is_digit U)) (Cls (is_digit U))))"

section \<open>The page: elements as the driver returns them\<close>

text \<open>
  An element is what the program reads from it: its \<open>text\<close> property, and the nodes
  that \<open>find_elements\<close> returns for the path of a yellow star. Either read may raise
  (a stale element, a lost session); every exception here is an \<open>Exception\<close>.
\<close>

record element =
  text_prop :: "exn + ustring"
  star_paths :: "exn + nat list"

definition extract_star_rating :: "element \<Rightarrow> int" where
  "extract_star_rating container =
     (case star_paths container of
        Inr stars \<Rightarrow> min (int (length stars)) 5
      | Inl e \<Rightarrow> 0)"

text \<open>\<open>x or 5\<close> on an integer.\<close>

definition or_default :: "int \<Rightarrow> int \<Rightarrow> int" where
  "or_default x d = (if x = 0 then d else x)"

section \<open>Products: numbered pages\<close>

record product =
  title :: ustring
  price :: ustring

text \<open>The body of the \<open>try\<close> up to the price: \<open>None\<close> when \<open>card.text\<close> raises.\<close>

definition parse_card :: "unicode \<Rightarrow> element \<Rightarrow> product option" where
  "parse_card U crd =
     (case text_prop crd of
        Inl e \<Rightarrow> None
      | Inr t \<Rightarrow>
          (let raw_text = strip t in
           case split_lines raw_text of
             [] \<Rightarrow> None
           | first_line # rest \<Rightarrow>
               Some \<lparr>title = first_line,
                     price = (case rx_search (price_rx U) raw_text of
                                Some m \<Rightarrow> m
                              | None \<Rightarrow> ascii ''N/A'')\<rparr>))"

text \<open>One card of the \<open>for\<close> loop; the state is \<open>(products, newly_added)\<close>.\<close>

definition add_card :: "unicode \<Rightarrow> element \<Rightarrow> product list \<times> nat \<Rightarrow> product list \<times> nat" where
  "add_card U crd st =
     (case parse_card U crd of
        None \<Rightarrow> st
      | Some p \<Rightarrow>
          if title p \<noteq> [] \<and> lower U (title p) \<noteq> ascii ''log in''
          then (if \<not> list_ex (\<lambda>q. title q = title p) (fst st)
                then (fst st @ [p], snd st + 1)
                else st)
          else st)"

fun scan_cards :: "unicode \<Rightarrow> element list \<Rightarrow> product list \<times> nat \<Rightarrow> product list \<times> nat" where
  "scan_cards U [] st = st"
| "scan_cards U (crd # cards) st = scan_cards U cards (add_card U crd st)"

text \<open>
  \<open>pages n\<close> is what \<open>driver.get\<close> of page \<open>n\<close> followed by \<open>find_elements\<close>
  gives: the cards, or the exception of either call. The loop may run forever on a site
  that never stops giving new titles, so it takes fuel: \<open>None\<close> is a run that has not
  returned. The state at the exit is the list and the last page fetched.
\<close>

record products_state =
  products :: "product list"
  page_index :: nat

fun products_loop ::
  "nat \<Rightarrow> unicode \<Rightarrow> (nat \<Rightarrow> exn + element list) \<Rightarrow> nat \<Rightarrow> product list
     \<Rightarrow> (exn + products_state) option" where
  "products_loop 0 U pages i ps = None"
| "products_loop (Suc fuel) U pages i ps =
     (case pages i of
        Inl e \<Rightarrow> Some (Inl e)
      | Inr product_cards \<Rightarrow>
          if product_cards = [] then Some (Inr \<lparr>products = ps, page_index = i\<rparr>)
          else (let st = scan_cards U product_cards (ps, 0) in
                if snd st = 0 then Some (Inr \<lparr>products = fst st, page_index = i\<rparr>)
                else products_loop fuel U pages (i + 1) (fst st)))"

definition collect_products ::
  "nat \<Rightarrow> unicode \<Rightarrow> (nat \<Rightarrow> exn + element list) \<Rightarrow> (exn + product list) option" where
  "collect_products fuel U pages =
     (case products_loop fuel U pages 1 [] of
        None \<Rightarrow> None
      | Some (Inl e) \<Rightarrow> Some (Inl e)
      | Some (Inr st) \<Rightarrow> Some (Inr (products st)))"

section \<open>Reviews: the load-more button and the cutoff\<close>

record review =
  date :: ustring
  review_text :: ustring
  rating :: int

text \<open>
  The inner \<open>for line in lines\<close>: the first line with a year token, and the year.
  \<open>Inl\<close> is an exception of \<open>int\<close>.
\<close>

fun find_year :: "unicode \<Rightarrow> ustring list \<Rightarrow> exn + (ustring \<times> int) option" where
  "find_year U [] = Inr None"
| "find_year U (line # lines) =
     (case rx_search (year_rx U) line of
        None \<Rightarrow> find_year U lines
      | Some m \<Rightarrow>
          (case int_of_digits U m of
             Inl e \<Rightarrow> Inl e
           | Inr review_year \<Rightarrow> Inr (Some (line, review_year))))"

datatype block_result = Skip | Stop | Keep review

text \<open>One block of the \<open>for\<close> loop, up to the record; \<open>Skip\<close> is \<open>continue\<close>.\<close>

definition parse_block :: "unicode \<Rightarrow> element \<Rightarrow> block_result" where
  "parse_block U block =
     (case text_prop block of
        Inl e \<Rightarrow> Skip
      | Inr t \<Rightarrow>
          (let lines = split_lines (strip t) in
           case find_year U lines of
             Inl e \<Rightarrow> Skip
           | Inr None \<Rightarrow> Skip
           | Inr (Some (review_date, review_year)) \<Rightarrow>
               if review_date = [] then Skip
               else if review_year < 2023 then Stop
               else (case max_by_len lines of
                       Inl e \<Rightarrow> Skip
                     | Inr longest \<Rightarrow>
                         Keep \<lparr>date = review_date, review_text = longest,
                               rating = or_default (extract_star_rating block) 5\<rparr>)))"

definition add_review :: "review \<Rightarrow> review list \<Rightarrow> review list" where
  "add_review r reviews_data =
     (if \<not> list_ex (\<lambda>q. review_text q = review_text r) reviews_data
      then reviews_data @ [r] else reviews_data)"

text \<open>The \<open>for\<close> loop: the list and \<open>reached_old_reviews\<close>.\<close>

fun scan_blocks :: "unicode \<Rightarrow> element list \<Rightarrow> review list \<Rightarrow> review list \<times> bool" where
  "scan_blocks U [] rs = (rs, False)"
| "scan_blocks U (block # blocks) rs =
     (case parse_block U block of
        Skip \<Rightarrow> scan_blocks U blocks rs
      | Stop \<Rightarrow> (rs, True)
      | Keep r \<Rightarrow> scan_blocks U blocks (add_review r rs))"

text \<open>
  One turn of the \<open>while\<close> loop, as the driver answers it: the blocks found, the scroll,
  the button (found and displayed or not, or an exception of either call), the click,
  and the numbers of blocks that the polls of \<open>wait.until\<close> see before its time is over.
\<close>

record round =
  found_blocks :: "exn + element list"
  scrolled :: "exn + unit"
  load_more_displayed :: "exn + bool"
  clicked :: "exn + unit"
  polled_counts :: "nat list"

text \<open>The \<open>try\<close> block: \<open>Inr True\<close> goes on, \<open>Inr False\<close> is the \<open>break\<close> of a hidden button.\<close>

definition try_load_more :: "round \<Rightarrow> nat \<Rightarrow> exn + bool" where
  "try_load_more r count_before =
     (case load_more_displayed r of
        Inl e \<Rightarrow> Inl e
      | Inr displayed \<Rightarrow>
          if \<not> displayed then Inr False
          else (case clicked r of
                  Inl e \<Rightarrow> Inl e
                | Inr u \<Rightarrow>
                    if list_ex (\<lambda>n. n > count_before) (polled_counts r) then Inr True
                    else Inl TimeoutException))"

fun reviews_loop ::
  "nat \<Rightarrow> unicode \<Rightarrow> (nat \<Rightarrow> round) \<Rightarrow> nat \<Rightarrow> review list \<Rightarrow> (exn + review list) option" where
  "reviews_loop 0 U rounds i rs = None"
| "reviews_loop (Suc fuel) U rounds i rs =
     (case found_blocks (rounds i) of
        Inl e \<Rightarrow> Some (Inl e)
      | Inr review_blocks \<Rightarrow>
          (let st = scan_blocks U review_blocks rs in
           if snd st then Some (Inr (fst st))
           else (case scrolled (rounds i) of
                   Inl e \<Rightarrow> Some (Inl e)
                 | Inr u \<Rightarrow>
                     (case try_load_more (rounds i) (length review_blocks) of
                        Inl e \<Rightarrow> Some (Inr (fst st))
                      | Inr False \<Rightarrow> Some (Inr (fst st))
                      | Inr True \<Rightarrow> reviews_loop fuel U rounds (i + 1) (fst st)))))"

record reviews_site =
  reviews_opened :: "exn + unit"
  rounds :: "nat \<Rightarrow> round"

definition collect_reviews :: "nat \<Rightarrow> unicode \<Rightarrow> reviews_site \<Rightarrow> (exn + review list) option" where
  "collect_reviews fuel U site =
     (case reviews_opened site of
        Inl e \<Rightarrow> Some (Inl e)
      | Inr u \<Rightarrow> reviews_loop fuel U (rounds site) 0 [])"

section \<open>Testimonials: infinite scroll\<close>

record testimonial =
  testimonial_text :: ustring
  testimonial_rating :: int

text \<open>
  \<open>heights n\<close> is the answer to the \<open>n\<close>-th scroll and the read of the height after it.
\<close>

fun scroll_loop :: "nat \<Rightarrow> (nat \<Rightarrow> exn + int) \<Rightarrow> nat \<Rightarrow> int \<Rightarrow> (exn + unit) option" where
  "scroll_loop 0 heights i last_height = None"
| "scroll_loop (Suc fuel) heights i last_height =
     (case heights i of
        Inl e \<Rightarrow> Some (Inl e)
      | Inr new_height \<Rightarrow>
          if new_height = last_height then Some (Inr ())
          else scroll_loop fuel heights (i + 1) new_height)"

definition boilerplate :: "ustring \<Rightarrow> bool" where
  "boilerplate t = (sublist (ascii ''Take a look'') t \<or> sublist (ascii ''collection'') t)"

definition add_testimonial :: "element \<Rightarrow> testimonial list \<Rightarrow> testimonial list" where
  "add_testimonial crd testimonials =
     (case text_prop crd of
        Inl e \<Rightarrow> testimonials
      | Inr t \<Rightarrow>
          (let txt = strip (replace_newlines t) in
           if boilerplate txt \<or> length txt < 10 \<or> length txt > 400 then testimonials
           else if \<not> list_ex (\<lambda>q. testimonial_text q = txt) testimonials
           then testimonials @
                  [\<lparr>testimonial_text = txt,
                    testimonial_rating = or_default (extract_star_rating crd) 5\<rparr>]
           else testimonials))"

fun scan_testimonials :: "element list \<Rightarrow> testimonial list \<Rightarrow> testimonial list" where
  "scan_testimonials [] ts = ts"
| "scan_testimonials (crd # cards) ts = scan_testimonials cards (add_testimonial crd ts)"

record testimonials_site =
  testimonials_opened :: "exn + int"
  heights :: "nat \<Rightarrow> exn + int"
  found_cards :: "exn + element list"

definition collect_testimonials :: "nat \<Rightarrow> testimonials_site \<Rightarrow> (exn + testimonial list) option" where
  "collect_testimonials fuel site =
     (case testimonials_opened site of
        Inl e \<Rightarrow> Some (Inl e)
      | Inr last_height \<Rightarrow>
          (case scroll_loop fuel (heights site) 0 last_height of
             None \<Rightarrow> None
           | Some (Inl e) \<Rightarrow> Some (Inl e)
           | Some (Inr u) \<Rightarrow>
               (case found_cards site of
                  Inl e \<Rightarrow> Some (Inl e)
                | Inr cards \<Rightarrow> Some (Inr (scan_testimonials cards [])))))"

section \<open>The run\<close>

record results =
  res_products :: "product list"
  res_reviews :: "review list"
  res_testimonials :: "testimonial list"

record site =
  browser :: "exn + unit"
  product_pages :: "nat \<Rightarrow> exn + element list"
  reviews_page :: reviews_site
  testimonials_page :: testimonials_site
  quit_result :: "exn + unit"

text \<open>The body of the \<open>try\<close>: the three passes in their order, the first exception ends it.\<close>

definition collect_all :: "nat \<Rightarrow> unicode \<Rightarrow> site \<Rightarrow> (exn + results) option" where
  "collect_all fuel U s =
     (case collect_products fuel U (product_pages s) of
        None \<Rightarrow> None
      | Some (Inl e) \<Rightarrow> Some (Inl e)
      | Some (Inr ps) \<Rightarrow>
          (case collect_reviews fuel U (reviews_page s) of
             None \<Rightarrow> None
           | Some (Inl e) \<Rightarrow> Some (Inl e)
           | Some (Inr rs) \<Rightarrow>
               (case collect_testimonials fuel (testimonials_page s) of
                  None \<Rightarrow> None
                | Some (Inl e) \<Rightarrow> Some (Inl e)
                | Some (Inr ts) \<Rightarrow>
                    Some (Inr \<lparr>res_products = ps, res_reviews = rs, res_testimonials = ts\<rparr>))))"

text \<open>
  What a run leaves behind: the exception it ends with, whether \<open>driver.quit\<close> was called,
  and the document written to \<open>scraped_data.json\<close>. The write itself is taken to succeed.
\<close>

record outcome =
  raised :: "exn option"
  quit_called :: bool
  written :: "results option"

definition run_scraper :: "nat \<Rightarrow> unicode \<Rightarrow> site \<Rightarrow> outcome option" where
  "run_scraper fuel U s =
     (case browser s of
        Inl e \<Rightarrow> Some \<lparr>raised = Some e, quit_called = False, written = None\<rparr>
      | Inr u \<Rightarrow>
          (case collect_all fuel U s of
             None \<Rightarrow> None
           | Some body \<Rightarrow>
               (case quit_result s of
                  Inl e \<Rightarrow> Some \<lparr>raised = Some e, quit_called = True, written = None\<rparr>
                | Inr u \<Rightarrow>
                    (case body of
                       Inl e \<Rightarrow> Some \<lparr>raised = Some e, quit_called = True, written = None\<rparr>
                     | Inr res \<Rightarrow>
                         Some \<lparr>raised = None, quit_called = True, written = Some res\<rparr>))))"

section \<open>A small site, for concrete runs\<close>

definition elem :: "ustring \<Rightarrow> nat \<Rightarrow> element" where
  "elem t n = \<lparr>text_prop = Inr t, star_paths = Inr (replicate n 0)\<rparr>"

definition demo_round :: round where
  "demo_round =
     \<lparr>found_blocks = Inr [elem (ascii ''Jan 2023'') 4, elem (ascii ''Dec 2022'') 2],
      scrolled = Inl WebDriverException,
      load_more_displayed = Inl NoSuchElementException,
      clicked = Inl WebDriverException,
      polled_counts = []\<rparr>"

definition demo_reviews :: reviews_site where
  "demo_reviews = \<lparr>reviews_opened = Inr (), rounds = (\<lambda>i. demo_round)\<rparr>"

definition demo_testimonials :: testimonials_site where
  "demo_testimonials =
     \<lparr>testimonials_opened = Inr 900,
      heights = (\<lambda>i. Inr 900),
      found_cards =
        Inr [elem (ascii ''Great shop'') 0,
             \<lparr>text_prop = Inr (ascii ''Fast delivery,'' @ [10] @ ascii ''will buy again''),
              star_paths = Inl StaleElementReferenceException\<rparr>,
             elem (ascii ''Great shop'') 3,
             elem (ascii ''Too short'') 5]\<rparr>"

definition demo_pages :: "nat \<Rightarrow> exn + element list" where
  "demo_pages n =
     (if n = 1 then Inr [elem (ascii ''Widget'' @ [10] @ ascii ''$12.99 in stock'') 0,
                         elem (ascii ''Gadget'' @ [10] @ ascii ''out of stock'') 0]
      else if n = 2 then Inr [elem (ascii ''Widget'' @ [10] @ ascii ''$12.99 in stock'') 0]
      else Inl WebDriverException)"

definition demo_site :: site where
  "demo_site =
     \<lparr>browser = Inr (), product_pages = demo_pages, reviews_page = demo_reviews,
      testimonials_page = demo_testimonials, quit_result = Inr ()\<rparr>"

definition demo_results :: results where
  "demo_results =
     \<lparr>res_products =
        [\<lparr>title = ascii ''Widget'', price = ascii ''$12.99''\<rparr>,
         \<lparr>title = ascii ''Gadget'', price = ascii ''N/A''\<rparr>],
      res_reviews =
        [\<lparr>date = ascii ''Jan 2023'', review_text = ascii ''Jan 2023'', rating = 4\<rparr>],
      res_testimonials =
        [\<lparr>testimonial_text = ascii ''Great shop'', testimonial_rating = 5\<rparr>,
         \<lparr>testimonial_text = ascii ''Fast delivery, will buy again'',
          testimonial_rating = 5\<rparr>]\<rparr>"

text \<open>A block whose only year lies before 2000, followed by a block of 2023.\<close>

definition old_token_blocks :: "element list" where
  "old_token_blocks = [elem (ascii ''Dec 1999'') 3, elem (ascii ''Jan 2023'') 4]"

text \<open>A reviews page whose first round of blocks is followed by a given answer of the button.\<close>

definition button_round :: "exn + bool \<Rightarrow> nat list \<Rightarrow> round" where
  "button_round button polls =
     \<lparr>found_blocks = Inr [elem (ascii ''Jan 2023'') 4],
      scrolled = Inr (),
      load_more_displayed = button,
      clicked = Inr (),
      polled_counts = polls\<rparr>"

text \<open>A site whose reviews page cannot be opened.\<close>

definition broken_site :: site where
  "broken_site =
     demo_site\<lparr>reviews_page := \<lparr>reviews_opened = Inl WebDriverException, rounds = (\<lambda>i. demo_round)\<rparr>\<rparr>"

text \<open>Sites on which the products pass, and the testimonials pass, raise.\<close>

definition no_products_site :: site where
  "no_products_site = demo_site\<lparr>product_pages := (\<lambda>n. Inl WebDriverException)\<rparr>"

definition no_cards_site :: site where
  "no_cards_site =
     demo_site\<lparr>testimonials_page :=
       demo_testimonials\<lparr>found_cards := Inl StaleElementReferenceException\<rparr>\<rparr>"

text \<open>Testimonial cards at the bounds of the length filter: 10, 400, 9 and 401 characters.\<close>

definition bound_cards :: "element list" where
  "bound_cards =
     [elem (ascii ''Great shop'') 0, elem (replicate 400 120) 2,
      elem (ascii ''Too short'') 5, elem (replicate 401 120) 3]"

definition bound_site :: testimonials_site where
  "bound_site =
     \<lparr>testimonials_opened = Inr 900, heights = (\<lambda>i. Inr 900), found_cards = Inr bound_cards\<rparr>"

text \<open>The two product cards of the specification's price example.\<close>

definition widget_priced :: ustring where
  "widget_priced = ascii ''Widget'' @ [10] @ ascii ''$12.99 in stock''"

definition widget_unpriced :: ustring where
  "widget_unpriced = ascii ''Widget'' @ [10] @ ascii ''out of stock''"

text \<open>
  Three pages of products, the third repeating the second, and a fourth page with a
  product not seen before.
\<close>

definition three_pages :: "nat \<Rightarrow> exn + element list" where
  "three_pages n =
     (if n = 1 then Inr [elem (ascii ''Anvil'' @ [10] @ ascii ''$1.00'') 0,
                         elem (ascii ''Bolt'' @ [10] @ ascii ''$2.50'') 0]
      else if n = 2 then Inr [elem (ascii ''Crate'' @ [10] @ ascii ''$3.00'') 0,
                              elem (ascii ''Drill'' @ [10] @ ascii ''$45.99'') 0]
      else if n = 3 then Inr [elem (ascii ''Crate'' @ [10] @ ascii ''$3.00'') 0,
                              elem (ascii ''Drill'' @ [10] @ ascii ''$45.99'') 0]
      else Inr [elem (ascii ''Engine'' @ [10] @ ascii ''$999.00'') 0])"

definition four_products :: "product list" where
  "four_products =
     [\<lparr>title = ascii ''Anvil'', price = ascii ''$1.00''\<rparr>,
      \<lparr>title = ascii ''Bolt'', price = ascii ''$2.50''\<rparr>,
      \<lparr>title = ascii ''Crate'', price = ascii ''$3.00''\<rparr>,
      \<lparr>title = ascii ''Drill'', price = ascii ''$45.99''\<rparr>]"

section \<open>What the claims speak of\<close>

text \<open>The strings a regular expression matches, without the order of the matcher.\<close>

fun lang :: "rx \<Rightarrow> ustring set" where
  "lang (Cls p) = {[c] | c. p c}"
| "lang (Cat a b) = {u @ v | u v. u \<in> lang a \<and> v \<in> lang b}"
| "lang (Opt a) = insert [] (lang a)"
| "lang (Many p) = {w. list_all p w}"

text \<open>
  An amount, in the words of the specification: an optional currency symbol, then
  digits, a decimal point and two digits. A text contains an amount when an amount is a
  substring of it.
\<close>

definition is_amount :: "unicode \<Rightarrow> ustring \<Rightarrow> bool" where
  "is_amount U w =
     (\<exists>cur ds d1 d2. w = cur @ ds @ [46, d1, d2]
        \<and> (cur = [] \<or> (\<exists>c. cur = [c] \<and> is_currency c))
        \<and> ds \<noteq> [] \<and> list_all (is_digit U) ds \<and> is_digit U d1 \<and> is_digit U d2)"

definition contains_amount :: "unicode \<Rightarrow> ustring \<Rightarrow> bool" where
  "contains_amount U t = (\<exists>w. is_amount U w \<and> sublist w t)"

text \<open>A year token: \<open>20\<close> and two digits, anywhere in the line.\<close>

definition has_year_token :: "unicode \<Rightarrow> ustring \<Rightarrow> bool" where
  "has_year_token U line =
     (\<exists>d1 d2. is_digit U d1 \<and> is_digit U d2 \<and> sublist [50, 48, d1, d2] line)"

text \<open>The year that the program reads in a line, and in a block.\<close>

definition line_year :: "unicode \<Rightarrow> ustring \<Rightarrow> int option" where
  "line_year U line =
     (case rx_search (year_rx U) line of
        None \<Rightarrow> None
      | Some m \<Rightarrow> (case int_of_digits U m of Inl e \<Rightarrow> None | Inr y \<Rightarrow> Some y))"

definition block_year :: "unicode \<Rightarrow> element \<Rightarrow> int option" where
  "block_year U block =
     (case text_prop block of
        Inl e \<Rightarrow> None
      | Inr t \<Rightarrow>
          (case find_year U (split_lines (strip t)) of
             Inl e \<Rightarrow> None
           | Inr None \<Rightarrow> None
           | Inr (Some (d, y)) \<Rightarrow> Some y))"

definition is_old :: "unicode \<Rightarrow> element \<Rightarrow> bool" where
  "is_old U block = (case block_year U block of None \<Rightarrow> False | Some y \<Rightarrow> y < 2023)"

section \<open>Invariants of the passes\<close>

lemma extract_star_rating_range: "0 \<le> extract_star_rating e \<and> extract_star_rating e \<le> 5"
  by (simp add: extract_star_rating_def split: sum.split)

lemma star_default_range:
  "1 \<le> or_default (extract_star_rating e) 5 \<and> or_default (extract_star_rating e) 5 \<le> 5"
  using extract_star_rating_range [of e] by (simp add: or_default_def)

lemma parse_block_rating:
  "parse_block U b = Keep r \<Longrightarrow> rating r = or_default (extract_star_rating b) 5"
  by (auto simp: parse_block_def Let_def split: sum.splits option.splits prod.splits if_splits)

lemma add_review_all:
  "list_all P rs \<Longrightarrow> P r \<Longrightarrow> list_all P (add_review r rs)"
  by (simp add: add_review_def)

lemma scan_blocks_all:
  assumes step: "\<And>b r. parse_block U b = Keep r \<Longrightarrow> P r"
  shows "list_all P rs \<Longrightarrow> list_all P (fst (scan_blocks U bs rs))"
proof (induction bs arbitrary: rs)
  case Nil
  then show ?case by simp
next
  case (Cons b bs)
  show ?case
  proof (cases "parse_block U b")
    case Skip
    then show ?thesis using Cons by simp
  next
    case Stop
    then show ?thesis using Cons.prems by simp
  next
    case (Keep r)
    then have "P r" by (rule step)
    then have "list_all P (add_review r rs)" using Cons.prems by (rule add_review_all [rotated])
    then show ?thesis using Keep Cons.IH by simp
  qed
qed

lemma reviews_loop_all:
  assumes step: "\<And>b r. parse_block U b = Keep r \<Longrightarrow> P r"
  shows "list_all P rs \<Longrightarrow> reviews_loop fuel U rnds i rs = Some (Inr out) \<Longrightarrow> list_all P out"
proof (induction fuel arbitrary: i rs)
  case 0
  then show ?case by simp
next
  case (Suc fuel)
  from Suc.prems(2) obtain blocks where blocks: "found_blocks (rnds i) = Inr blocks"
    by (cases "found_blocks (rnds i)") auto
  let ?st = "scan_blocks U blocks rs"
  have inv: "list_all P (fst ?st)" using step Suc.prems(1) by (rule scan_blocks_all)
  show ?case
  proof (cases "out = fst ?st")
    case True
    then show ?thesis using inv by simp
  next
    case False
    then have "reviews_loop fuel U rnds (i + 1) (fst ?st) = Some (Inr out)"
      using Suc.prems(2) blocks
      by (auto simp: Let_def split: if_splits sum.splits bool.splits)
    then show ?thesis using Suc.IH inv by blast
  qed
qed

lemma collect_reviews_all:
  assumes step: "\<And>b r. parse_block U b = Keep r \<Longrightarrow> P r"
    and res: "collect_reviews fuel U site = Some (Inr out)"
  shows "list_all P out"
proof -
  from res have "reviews_loop fuel U (rounds site) 0 [] = Some (Inr out)"
    by (auto simp: collect_reviews_def split: sum.splits)
  with step show ?thesis using reviews_loop_all [of U P "[]"] by simp
qed

lemma add_testimonial_all:
  assumes step: "\<And>c t. text_prop c = Inr t \<Longrightarrow> \<not> boilerplate (strip (replace_newlines t))
       \<Longrightarrow> 10 \<le> length (strip (replace_newlines t)) \<Longrightarrow> length (strip (replace_newlines t)) \<le> 400
       \<Longrightarrow> P \<lparr>testimonial_text = strip (replace_newlines t),
               testimonial_rating = or_default (extract_star_rating c) 5\<rparr>"
  shows "list_all P ts \<Longrightarrow> list_all P (add_testimonial c ts)"
  using step [of c]
  by (auto simp: add_testimonial_def Let_def not_less split: sum.splits)

lemma scan_testimonials_all:
  assumes step: "\<And>c t. text_prop c = Inr t \<Longrightarrow> \<not> boilerplate (strip (replace_newlines t))
       \<Longrightarrow> 10 \<le> length (strip (replace_newlines t)) \<Longrightarrow> length (strip (replace_newlines t)) \<le> 400
       \<Longrightarrow> P \<lparr>testimonial_text = strip (replace_newlines t),
               testimonial_rating = or_default (extract_star_rating c) 5\<rparr>"
  shows "list_all P ts \<Longrightarrow> list_all P (scan_testimonials cs ts)"
proof (induction cs arbitrary: ts)
  case Nil
  then show ?case by simp
next
  case (Cons c cs)
  have "list_all P (add_testimonial c ts)"
    using step Cons.prems by (rule add_testimonial_all)
  then show ?case using Cons.IH by simp
qed

lemma collect_testimonials_scan:
  "collect_testimonials fuel site = Some (Inr out) \<Longrightarrow>
     \<exists>cs. found_cards site = Inr cs \<and> out = scan_testimonials cs []"
  by (auto simp: collect_testimonials_def split: sum.splits option.splits)

lemma collect_all_parts:
  "collect_all fuel U s = Some (Inr doc) \<Longrightarrow>
     collect_products fuel U (product_pages s) = Some (Inr (res_products doc))
     \<and> collect_reviews fuel U (reviews_page s) = Some (Inr (res_reviews doc))
     \<and> collect_testimonials fuel (testimonials_page s) = Some (Inr (res_testimonials doc))"
  by (auto simp: collect_all_def split: sum.splits option.splits)

lemma run_scraper_written:
  "run_scraper fuel U s = Some out \<Longrightarrow> written out = Some doc \<Longrightarrow>
     collect_all fuel U s = Some (Inr doc)"
  by (auto simp: run_scraper_def split: sum.splits option.splits)

section \<open>Concrete runs\<close>

lemmas text_defs = ascii_def strip_def is_space_def is_digit_def digit_value_def is_currency_def
  price_rx_def year_rx_def lower_def replace_newlines_def int_of_digits_def max_by_len_def
  boilerplate_def

lemma demo_products: "collect_products (Suc (Suc f)) U demo_pages = Some (Inr (res_products demo_results))"
  by (simp add: collect_products_def demo_pages_def demo_results_def elem_def add_card_def
      parse_card_def text_defs Let_def sublist_code)

lemma demo_reviews_run: "collect_reviews (Suc f) U demo_reviews = Some (Inr (res_reviews demo_results))"
  by (simp add: collect_reviews_def demo_reviews_def demo_round_def demo_results_def elem_def
      parse_block_def add_review_def extract_star_rating_def or_default_def text_defs Let_def sublist_code)

lemma demo_testimonials_run:
  "collect_testimonials (Suc f) demo_testimonials = Some (Inr (res_testimonials demo_results))"
  by (simp add: collect_testimonials_def demo_testimonials_def demo_results_def elem_def
      add_testimonial_def extract_star_rating_def or_default_def text_defs Let_def sublist_code)

lemma demo_run:
  "run_scraper (Suc (Suc f)) U demo_site =
     Some \<lparr>raised = None, quit_called = True, written = Some demo_results\<rparr>"
  by (simp add: run_scraper_def collect_all_def demo_site_def demo_products demo_reviews_run
      demo_testimonials_run)

section \<open>Ratings\<close>

lemma reviews_rating_bounds:
  assumes "collect_reviews fuel U rsite = Some (Inr rs)"
  shows "list_all (\<lambda>r. 1 \<le> rating r \<and> rating r \<le> 5) rs"
proof (rule collect_reviews_all [OF _ assms])
  fix b r
  assume "parse_block U b = Keep r"
  then have "rating r = or_default (extract_star_rating b) 5" by (rule parse_block_rating)
  then show "1 \<le> rating r \<and> rating r \<le> 5" using star_default_range [of b] by simp
qed

lemma testimonials_rating_bounds:
  assumes "collect_testimonials fuel tsite = Some (Inr ts)"
  shows "list_all (\<lambda>t. 1 \<le> testimonial_rating t \<and> testimonial_rating t \<le> 5) ts"
proof -
  from assms obtain cs where "ts = scan_testimonials cs []"
    using collect_testimonials_scan by blast
  moreover have "list_all (\<lambda>t. 1 \<le> testimonial_rating t \<and> testimonial_rating t \<le> 5)
      (scan_testimonials cs [])"
    by (rule scan_testimonials_all) (simp_all add: star_default_range)
  ultimately show ?thesis by simp
qed

lemma add_testimonial_rating:
  "add_testimonial c [] = [t] \<Longrightarrow> testimonial_rating t = or_default (extract_star_rating c) 5"
  by (auto simp: add_testimonial_def Let_def split: sum.splits if_splits)

text \<open>
  C5. The rating of a record is the number of star nodes found in its element, at most 5,
  and 5 when no star node is found; so every rating of a review or of a testimonial lies
  between 0 and 5.
\<close>

theorem rating_rule:
  "(star_paths e = Inr stars \<longrightarrow>
      extract_star_rating e = min (int (length stars)) 5
      \<and> or_default (extract_star_rating e) 5 = (if stars = [] then 5 else min (int (length stars)) 5))
   \<and> (parse_block U e = Keep r \<longrightarrow> rating r = or_default (extract_star_rating e) 5)
   \<and> (add_testimonial c [] = [t] \<longrightarrow> testimonial_rating t = or_default (extract_star_rating c) 5)
   \<and> (collect_reviews fuel U rsite = Some (Inr rs) \<longrightarrow>
        (\<forall>x \<in> set rs. 0 \<le> rating x \<and> rating x \<le> 5))
   \<and> (collect_testimonials fuel tsite = Some (Inr ts) \<longrightarrow>
        (\<forall>x \<in> set ts. 0 \<le> testimonial_rating x \<and> testimonial_rating x \<le> 5))"
proof (intro conjI impI)
  assume "star_paths e = Inr stars"
  then show "extract_star_rating e = min (int (length stars)) 5"
    by (simp add: extract_star_rating_def)
  then show "or_default (extract_star_rating e) 5 = (if stars = [] then 5 else min (int (length stars)) 5)"
    by (cases stars) (simp_all add: or_default_def)
next
  assume "parse_block U e = Keep r"
  then show "rating r = or_default (extract_star_rating e) 5" by (rule parse_block_rating)
next
  assume "add_testimonial c [] = [t]"
  then show "testimonial_rating t = or_default (extract_star_rating c) 5"
    by (rule add_testimonial_rating)
next
  assume "collect_reviews fuel U rsite = Some (Inr rs)"
  then have "list_all (\<lambda>r. 1 \<le> rating r \<and> rating r \<le> 5) rs" by (rule reviews_rating_bounds)
  then show "\<forall>x \<in> set rs. 0 \<le> rating x \<and> rating x \<le> 5" by (auto simp: list_all_iff)
next
  assume "collect_testimonials fuel tsite = Some (Inr ts)"
  then have "list_all (\<lambda>t. 1 \<le> testimonial_rating t \<and> testimonial_rating t \<le> 5) ts"
    by (rule testimonials_rating_bounds)
  then show "\<forall>x \<in> set ts. 0 \<le> testimonial_rating x \<and> testimonial_rating x \<le> 5"
    by (auto simp: list_all_iff)
qed

theorem rating_rule_witness:
  "star_paths (elem (ascii ''Jan 2023'') 7) = Inr (replicate 7 0)
   \<and> or_default (extract_star_rating (elem (ascii ''Jan 2023'') 7)) 5 = 5
   \<and> parse_block ascii_only (elem (ascii ''Jan 2023'') 7)
       = Keep \<lparr>date = ascii ''Jan 2023'', review_text = ascii ''Jan 2023'', rating = 5\<rparr>
   \<and> add_testimonial (elem (ascii ''Great shop'') 0) []
       = [\<lparr>testimonial_text = ascii ''Great shop'', testimonial_rating = 5\<rparr>]
   \<and> collect_reviews (Suc 0) ascii_only demo_reviews = Some (Inr (res_reviews demo_results))
   \<and> list_all (\<lambda>x. 0 \<le> rating x \<and> rating x \<le> 5) (res_reviews demo_results)
   \<and> collect_testimonials (Suc 0) demo_testimonials = Some (Inr (res_testimonials demo_results))
   \<and> list_all (\<lambda>x. 0 \<le> testimonial_rating x \<and> testimonial_rating x \<le> 5)
       (res_testimonials demo_results)"
proof -
  let ?e = "elem (ascii ''Jan 2023'') 7"
  let ?r = "\<lparr>date = ascii ''Jan 2023'', review_text = ascii ''Jan 2023'', rating = 5\<rparr>"
  let ?c = "elem (ascii ''Great shop'') 0"
  let ?t = "\<lparr>testimonial_text = ascii ''Great shop'', testimonial_rating = 5\<rparr>"
  have a: "star_paths ?e = Inr (replicate 7 0)" by (simp add: elem_def)
  have b: "parse_block ascii_only ?e = Keep ?r"
    by (simp add: elem_def parse_block_def extract_star_rating_def or_default_def text_defs Let_def)
  have c: "add_testimonial ?c [] = [?t]"
    by (simp add: elem_def add_testimonial_def extract_star_rating_def or_default_def text_defs
        Let_def sublist_code)
  note d = demo_reviews_run [of 0 ascii_only]
  note e = demo_testimonials_run [of 0]
  from rating_rule [of ?e "replicate 7 0" ascii_only ?r ?c ?t "Suc 0" demo_reviews
      "res_reviews demo_results" demo_testimonials "res_testimonials demo_results"] a b c d e
  show ?thesis by (simp add: or_default_def list_all_iff)
qed

text \<open>
  C9. No rating in the output is 0: a star count of 0, also the 0 that stands for a failed
  lookup, is replaced by 5, so every rating of a written review or testimonial is at
  least 1.
\<close>

theorem rating_never_zero:
  "1 \<le> or_default (extract_star_rating e) 5
   \<and> (star_paths e = Inl x \<longrightarrow>
        extract_star_rating e = 0 \<and> or_default (extract_star_rating e) 5 = 5)
   \<and> (run_scraper fuel U s = Some out \<and> written out = Some doc \<longrightarrow>
        (\<forall>r \<in> set (res_reviews doc). 1 \<le> rating r)
        \<and> (\<forall>t \<in> set (res_testimonials doc). 1 \<le> testimonial_rating t))"
proof (intro conjI impI)
  show "1 \<le> or_default (extract_star_rating e) 5" using star_default_range [of e] by simp
next
  assume "star_paths e = Inl x"
  then show "extract_star_rating e = 0" by (simp add: extract_star_rating_def)
  then show "or_default (extract_star_rating e) 5 = 5" by (simp add: or_default_def)
next
  assume run: "run_scraper fuel U s = Some out \<and> written out = Some doc"
  then have parts: "collect_all fuel U s = Some (Inr doc)"
    using run_scraper_written by blast
  from collect_all_parts [OF parts]
  have "list_all (\<lambda>r. 1 \<le> rating r \<and> rating r \<le> 5) (res_reviews doc)"
    using reviews_rating_bounds by blast
  then show "\<forall>r \<in> set (res_reviews doc). 1 \<le> rating r" by (auto simp: list_all_iff)
  from collect_all_parts [OF parts]
  have "list_all (\<lambda>t. 1 \<le> testimonial_rating t \<and> testimonial_rating t \<le> 5) (res_testimonials doc)"
    using testimonials_rating_bounds by blast
  then show "\<forall>t \<in> set (res_testimonials doc). 1 \<le> testimonial_rating t"
    by (auto simp: list_all_iff)
qed

theorem rating_never_zero_witness:
  "star_paths \<lparr>text_prop = Inr (ascii ''Great shop''), star_paths = Inl StaleElementReferenceException\<rparr>
     = Inl StaleElementReferenceException
   \<and> or_default (extract_star_rating
        \<lparr>text_prop = Inr (ascii ''Great shop''), star_paths = Inl StaleElementReferenceException\<rparr>) 5 = 5
   \<and> run_scraper (Suc (Suc 0)) ascii_only demo_site
       = Some \<lparr>raised = None, quit_called = True, written = Some demo_results\<rparr>
   \<and> list_all (\<lambda>r. 1 \<le> rating r) (res_reviews demo_results)
   \<and> list_all (\<lambda>t. 1 \<le> testimonial_rating t) (res_testimonials demo_results)"
  using rating_never_zero [of "\<lparr>text_prop = Inr (ascii ''Great shop''), star_paths = Inl StaleElementReferenceException\<rparr>"
      StaleElementReferenceException "Suc (Suc 0)" ascii_only demo_site
      "\<lparr>raised = None, quit_called = True, written = Some demo_results\<rparr>" demo_results]
    demo_run [of 0 ascii_only]
  by (simp add: or_default_def list_all_iff)

section \<open>Regular expressions: what the matcher finds\<close>

lemma many_set: "set (many p s) = {rest. \<exists>w. list_all p w \<and> s = w @ rest}"
proof (induction s)
  case Nil
  then show ?case by auto
next
  case (Cons c cs)
  show ?case
  proof (cases "p c")
    case True
    have "{rest. \<exists>w. list_all p w \<and> c # cs = w @ rest}
        = insert (c # cs) {rest. \<exists>w. list_all p w \<and> cs = w @ rest}" (is "?L = ?R")
    proof
      show "?L \<subseteq> ?R"
      proof
        fix rest assume "rest \<in> ?L"
        then obtain w where w: "list_all p w" "c # cs = w @ rest" by blast
        show "rest \<in> ?R"
        proof (cases w)
          case Nil
          then show ?thesis using w by simp
        next
          case (Cons a w')
          then have "list_all p w'" "cs = w' @ rest" using w by auto
          then show ?thesis by blast
        qed
      qed
      show "?R \<subseteq> ?L"
      proof
        fix rest assume "rest \<in> ?R"
        then consider "rest = c # cs" | w where "list_all p w" "cs = w @ rest" by blast
        then show "rest \<in> ?L"
        proof cases
          case 1
          then have "list_all p [] \<and> c # cs = [] @ rest" by simp
          then show ?thesis by blast
        next
          case 2
          then have "list_all p (c # w) \<and> c # cs = (c # w) @ rest" using True by simp
          then show ?thesis by blast
        qed
      qed
    qed
    then show ?thesis using True Cons.IH by simp
  next
    case False
    have "{rest. \<exists>w. list_all p w \<and> c # cs = w @ rest} = {c # cs}" (is "?L = ?R")
    proof
      show "?L \<subseteq> ?R"
      proof
        fix rest assume "rest \<in> ?L"
        then obtain w where w: "list_all p w" "c # cs = w @ rest" by blast
        have "w = []" using w False by (cases w) auto
        then show "rest \<in> ?R" using w by simp
      qed
      have "list_all p [] \<and> c # cs = [] @ (c # cs)" by simp
      then show "?R \<subseteq> ?L" by blast
    qed
    then show ?thesis using False by simp
  qed
qed

lemma in_lang_Cls: "w \<in> lang (Cls p) \<longleftrightarrow> (\<exists>c. w = [c] \<and> p c)"
  by auto

lemma in_lang_Cat: "w \<in> lang (Cat a b) \<longleftrightarrow> (\<exists>u v. w = u @ v \<and> u \<in> lang a \<and> v \<in> lang b)"
  by auto

lemma in_lang_Cls_Cat: "w \<in> lang (Cat (Cls p) b) \<longleftrightarrow> (\<exists>c v. w = c # v \<and> p c \<and> v \<in> lang b)"
proof
  assume "w \<in> lang (Cat (Cls p) b)"
  then obtain u v where "w = u @ v" "u \<in> lang (Cls p)" "v \<in> lang b"
    unfolding in_lang_Cat by blast
  then show "\<exists>c v. w = c # v \<and> p c \<and> v \<in> lang b" by auto
next
  assume "\<exists>c v. w = c # v \<and> p c \<and> v \<in> lang b"
  then obtain c v where "w = [c] @ v" "[c] \<in> lang (Cls p)" "v \<in> lang b" by auto
  then show "w \<in> lang (Cat (Cls p) b)" unfolding in_lang_Cat by blast
qed

lemma rx_match_set: "set (rx_match r s) = {rest. \<exists>w \<in> lang r. s = w @ rest}"
proof (induction r arbitrary: s)
  case (Cls p)
  show ?case by (cases s) auto
next
  case (Cat a b)
  show ?case
  proof
    show "set (rx_match (Cat a b) s) \<subseteq> {rest. \<exists>w \<in> lang (Cat a b). s = w @ rest}"
    proof
      fix rest assume "rest \<in> set (rx_match (Cat a b) s)"
      then obtain mid where "mid \<in> set (rx_match a s)" "rest \<in> set (rx_match b mid)" by auto
      then obtain u v where "u \<in> lang a" "s = u @ mid" "v \<in> lang b" "mid = v @ rest"
        using Cat.IH by blast
      then have "u @ v \<in> lang (Cat a b) \<and> s = (u @ v) @ rest" by auto
      then show "rest \<in> {rest. \<exists>w \<in> lang (Cat a b). s = w @ rest}" by blast
    qed
    show "{rest. \<exists>w \<in> lang (Cat a b). s = w @ rest} \<subseteq> set (rx_match (Cat a b) s)"
    proof
      fix rest assume "rest \<in> {rest. \<exists>w \<in> lang (Cat a b). s = w @ rest}"
      then obtain u v where uv: "u \<in> lang a" "v \<in> lang b" "s = (u @ v) @ rest" by auto
      then have "v @ rest \<in> set (rx_match a s)" using Cat.IH(1) by auto
      moreover have "rest \<in> set (rx_match b (v @ rest))" using uv Cat.IH(2) by auto
      ultimately show "rest \<in> set (rx_match (Cat a b) s)" by auto
    qed
  qed
next
  case (Opt a)
  show ?case using Opt.IH by auto
next
  case (Many p)
  show ?case by (simp add: many_set)
qed

lemma rx_match_empty: "rx_match r s = [] \<longleftrightarrow> \<not> (\<exists>w \<in> lang r. prefix w s)"
proof -
  have "rx_match r s = [] \<longleftrightarrow> set (rx_match r s) = {}" by simp
  also have "\<dots> \<longleftrightarrow> \<not> (\<exists>w \<in> lang r. prefix w s)"
    unfolding rx_match_set prefix_def by blast
  finally show ?thesis .
qed

lemma rx_search_None: "rx_search r s = None \<longleftrightarrow> \<not> (\<exists>w \<in> lang r. sublist w s)"
proof (induction s)
  case Nil
  show ?case using rx_match_empty [of r "[]"] by (auto split: list.splits)
next
  case (Cons c cs)
  show ?case
  proof (cases "rx_match r (c # cs)")
    case Nil
    then have "\<not> (\<exists>w \<in> lang r. prefix w (c # cs))" by (simp add: rx_match_empty)
    then show ?thesis using Nil Cons.IH by (auto simp: sublist_Cons_right)
  next
    case (Cons rest more)
    then have "rx_match r (c # cs) \<noteq> []" by simp
    then obtain w where "w \<in> lang r" "prefix w (c # cs)" using rx_match_empty by blast
    then have "\<exists>w \<in> lang r. sublist w (c # cs)" using prefix_imp_sublist by blast
    then show ?thesis using Cons by simp
  qed
qed

lemma rx_search_Some: "rx_search r s = Some m \<Longrightarrow> m \<in> lang r \<and> sublist m s"
proof (induction s)
  case Nil
  then obtain rest more where "rx_match r [] = rest # more" by (auto split: list.splits)
  then have "rest \<in> set (rx_match r [])" by simp
  then have "[] \<in> lang r" unfolding rx_match_set by auto
  moreover have "m = []" using Nil by (auto split: list.splits)
  ultimately show ?case by simp
next
  case (Cons c cs)
  show ?case
  proof (cases "rx_match r (c # cs)")
    case Nil
    then have "rx_search r cs = Some m" using Cons.prems by simp
    then show ?thesis using Cons.IH by (auto simp: sublist_Cons_right)
  next
    case (Cons rest more)
    then have "rest \<in> set (rx_match r (c # cs))" by simp
    then obtain w where w: "w \<in> lang r" "c # cs = w @ rest" unfolding rx_match_set by blast
    have "m = take (length (c # cs) - length rest) (c # cs)" using Cons Cons.prems by simp
    also have "\<dots> = w" using w(2) by simp
    finally show ?thesis using w by (metis prefixI prefix_imp_sublist)
  qed
qed

lemma in_lang_year_rx:
  "w \<in> lang (year_rx U) \<longleftrightarrow> (\<exists>d1 d2. w = [50, 48, d1, d2] \<and> is_digit U d1 \<and> is_digit U d2)"
  unfolding year_rx_def in_lang_Cls_Cat in_lang_Cls by auto

lemma in_lang_digits:
  "w \<in> lang (Cat (Cls p) (Many p)) \<longleftrightarrow> w \<noteq> [] \<and> list_all p w"
  unfolding in_lang_Cls_Cat by (cases w) auto

lemma in_lang_price_rx:
  "w \<in> lang (price_rx U) \<longleftrightarrow>
     (\<exists>cur ws ds d1 d2. w = cur @ ws @ ds @ [46, d1, d2]
        \<and> (cur = [] \<or> (\<exists>c. cur = [c] \<and> is_currency c)) \<and> list_all is_space ws
        \<and> ds \<noteq> [] \<and> list_all (is_digit U) ds \<and> is_digit U d1 \<and> is_digit U d2)"
  (is "?L \<longleftrightarrow> ?R")
proof
  assume ?L
  then obtain cur r1 where 1: "w = cur @ r1" "cur \<in> lang (Opt (Cls is_currency))"
      "r1 \<in> lang (Cat (Many is_space) (Cat (Cat (Cls (is_digit U)) (Many (is_digit U)))
           (Cat (Cls (\<lambda>c. c = 46)) (Cat (Cls (is_digit U)) (Cls (is_digit U))))))"
    unfolding price_rx_def in_lang_Cat [of w] by blast
  from 1(3) obtain ws r2 where 2: "r1 = ws @ r2" "ws \<in> lang (Many is_space)"
      "r2 \<in> lang (Cat (Cat (Cls (is_digit U)) (Many (is_digit U)))
           (Cat (Cls (\<lambda>c. c = 46)) (Cat (Cls (is_digit U)) (Cls (is_digit U)))))"
    unfolding in_lang_Cat [of r1] by blast
  from 2(3) obtain ds r3 where 3: "r2 = ds @ r3" "ds \<in> lang (Cat (Cls (is_digit U)) (Many (is_digit U)))"
      "r3 \<in> lang (Cat (Cls (\<lambda>c. c = 46)) (Cat (Cls (is_digit U)) (Cls (is_digit U))))"
    unfolding in_lang_Cat [of r2] by blast
  from 3(3) obtain d1 d2 where 4: "r3 = [46, d1, d2]" "is_digit U d1" "is_digit U d2"
    unfolding in_lang_Cls_Cat in_lang_Cls by auto
  have "cur = [] \<or> (\<exists>c. cur = [c] \<and> is_currency c)" using 1(2) by auto
  moreover have "list_all is_space ws" using 2(2) by simp
  moreover have "ds \<noteq> [] \<and> list_all (is_digit U) ds" using 3(2) in_lang_digits [of ds "is_digit U"] by blast
  moreover have "w = cur @ ws @ ds @ [46, d1, d2]" using 1(1) 2(1) 3(1) 4(1) by simp
  ultimately show ?R using 4(2,3) by blast
next
  assume ?R
  then obtain cur ws ds d1 d2 where w:
    "w = cur @ ws @ ds @ [46, d1, d2]"
    "cur = [] \<or> (\<exists>c. cur = [c] \<and> is_currency c)" "list_all is_space ws"
    "ds \<noteq> []" "list_all (is_digit U) ds" "is_digit U d1" "is_digit U d2"
    by blast
  have 1: "cur \<in> lang (Opt (Cls is_currency))" using w(2) by auto
  have 2: "ws \<in> lang (Many is_space)" using w(3) by simp
  have 3: "ds \<in> lang (Cat (Cls (is_digit U)) (Many (is_digit U)))"
    using w(4,5) in_lang_digits [of ds "is_digit U"] by blast
  have 4: "[46, d1, d2] \<in> lang (Cat (Cls (\<lambda>c. c = 46)) (Cat (Cls (is_digit U)) (Cls (is_digit U))))"
    unfolding in_lang_Cls_Cat in_lang_Cls using w(6,7) by simp
  have "ds @ [46, d1, d2] \<in> lang (Cat (Cat (Cls (is_digit U)) (Many (is_digit U)))
           (Cat (Cls (\<lambda>c. c = 46)) (Cat (Cls (is_digit U)) (Cls (is_digit U)))))"
    unfolding in_lang_Cat [of "ds @ [46, d1, d2]"] using 3 4 by blast
  then have "ws @ ds @ [46, d1, d2] \<in> lang (Cat (Many is_space) (Cat (Cat (Cls (is_digit U)) (Many (is_digit U)))
           (Cat (Cls (\<lambda>c. c = 46)) (Cat (Cls (is_digit U)) (Cls (is_digit U))))))"
    unfolding in_lang_Cat [of "ws @ ds @ [46, d1, d2]"] using 2 by blast
  then show ?L unfolding price_rx_def w(1) in_lang_Cat [of "cur @ ws @ ds @ [46, d1, d2]"]
    using 1 by blast
qed

section \<open>Dates and the cutoff\<close>

lemma has_year_token_lang: "has_year_token U line \<longleftrightarrow> (\<exists>w \<in> lang (year_rx U). sublist w line)"
  unfolding has_year_token_def Bex_def in_lang_year_rx by blast

lemma has_year_token_search: "has_year_token U line \<longleftrightarrow> rx_search (year_rx U) line \<noteq> None"
  by (simp add: has_year_token_lang rx_search_None)

lemma digit_value_less: "digit_value U c = Some v \<Longrightarrow> v < 10"
  by (auto simp: digit_value_def split: if_splits option.splits)

lemma digit_value_two_zero: "digit_value U 50 = Some 2" "digit_value U 48 = Some 0"
  by (simp_all add: digit_value_def)

lemma int_of_year_token:
  assumes "is_digit U d1" "is_digit U d2"
  shows "\<exists>y. int_of_digits U [50, 48, d1, d2] = Inr y \<and> 2000 \<le> y \<and> y \<le> 2099"
proof -
  from assms obtain v1 v2 where v: "digit_value U d1 = Some v1" "digit_value U d2 = Some v2"
    by (auto simp: is_digit_def)
  then have less: "v1 < 10" "v2 < 10" using digit_value_less by blast+
  have "int_of_digits U [50, 48, d1, d2] = Inr (2000 + 10 * int v1 + int v2)"
    by (simp add: int_of_digits_def is_digit_def digit_value_two_zero v)
  moreover have "2000 \<le> 2000 + 10 * int v1 + int v2 \<and> 2000 + 10 * int v1 + int v2 \<le> 2099"
    using less by linarith
  ultimately show ?thesis by blast
qed

lemma search_year_shape:
  assumes "rx_search (year_rx U) line = Some m"
  shows "\<exists>y. int_of_digits U m = Inr y \<and> 2000 \<le> y \<and> y \<le> 2099"
proof -
  from assms have "m \<in> lang (year_rx U)" using rx_search_Some by blast
  then obtain d1 d2 where "m = [50, 48, d1, d2]" "is_digit U d1" "is_digit U d2"
    unfolding in_lang_year_rx by blast
  then show ?thesis using int_of_year_token by simp
qed

lemma line_year_no_match: "rx_search (year_rx U) line = None \<Longrightarrow> line_year U line = None"
  by (simp add: line_year_def)

lemma line_year_match:
  assumes "rx_search (year_rx U) line = Some m"
  shows "\<exists>y. line_year U line = Some y \<and> int_of_digits U m = Inr y \<and> 2000 \<le> y \<and> y \<le> 2099"
proof -
  obtain y where y: "int_of_digits U m = Inr y" "2000 \<le> y" "y \<le> 2099"
    using search_year_shape [OF assms] by blast
  have "line_year U line = Some y" by (simp add: line_year_def assms y(1))
  then show ?thesis using y by blast
qed

lemma line_year_range:
  assumes "line_year U line = Some y"
  shows "2000 \<le> y \<and> y \<le> 2099"
proof (cases "rx_search (year_rx U) line")
  case None
  then show ?thesis using assms line_year_no_match [of U line] by simp
next
  case (Some m)
  then obtain y' where "line_year U line = Some y'" "2000 \<le> y'" "y' \<le> 2099"
    using line_year_match by blast
  then show ?thesis using assms by simp
qed

lemma line_year_token: "line_year U line \<noteq> None \<longleftrightarrow> has_year_token U line"
proof (cases "rx_search (year_rx U) line")
  case None
  then show ?thesis using line_year_no_match [of U line] by (simp add: has_year_token_search)
next
  case (Some m)
  then obtain y where "line_year U line = Some y" using line_year_match by blast
  then show ?thesis using Some by (simp add: has_year_token_search)
qed

lemma find_year_cases:
  "find_year U lines = Inr None \<and> \<not> list_ex (has_year_token U) lines
   \<or> (\<exists>before d after y. find_year U lines = Inr (Some (d, y)) \<and> lines = before @ d # after
        \<and> \<not> list_ex (has_year_token U) before \<and> has_year_token U d
        \<and> line_year U d = Some y)"
proof (induction lines)
  case Nil
  then show ?case by simp
next
  case (Cons l ls)
  show ?case
  proof (cases "rx_search (year_rx U) l")
    case None
    then have no: "\<not> has_year_token U l" by (simp add: has_year_token_search)
    from Cons.IH show ?thesis
    proof
      assume "find_year U ls = Inr None \<and> \<not> list_ex (has_year_token U) ls"
      then show ?thesis using None no by simp
    next
      assume "\<exists>before d after y. find_year U ls = Inr (Some (d, y)) \<and> ls = before @ d # after
        \<and> \<not> list_ex (has_year_token U) before \<and> has_year_token U d \<and> line_year U d = Some y"
      then obtain before d after y where h: "find_year U ls = Inr (Some (d, y))"
        "ls = before @ d # after" "\<not> list_ex (has_year_token U) before" "has_year_token U d"
        "line_year U d = Some y" by blast
      have "find_year U (l # ls) = Inr (Some (d, y)) \<and> l # ls = (l # before) @ d # after
        \<and> \<not> list_ex (has_year_token U) (l # before) \<and> has_year_token U d \<and> line_year U d = Some y"
        using h None no by simp
      then show ?thesis by blast
    qed
  next
    case (Some m)
    then obtain y where y: "int_of_digits U m = Inr y" using search_year_shape by blast
    have "find_year U (l # ls) = Inr (Some (l, y)) \<and> l # ls = [] @ l # ls
        \<and> \<not> list_ex (has_year_token U) [] \<and> has_year_token U l \<and> line_year U l = Some y"
      using Some y by (simp add: has_year_token_search line_year_def)
    then show ?thesis by blast
  qed
qed



lemma year_line_nonempty: "line_year U d = Some y \<Longrightarrow> d \<noteq> []"
  by (auto simp: line_year_def year_rx_def)

lemma find_year_Some:
  assumes "find_year U lines = Inr (Some (d, y))"
  shows "d \<noteq> [] \<and> line_year U d = Some y \<and> has_year_token U d
     \<and> (\<exists>before after. lines = before @ d # after \<and> \<not> list_ex (has_year_token U) before)"
  using find_year_cases [of U lines] assms year_line_nonempty by auto

lemma find_year_None: "find_year U lines = Inr None \<longleftrightarrow> \<not> list_ex (has_year_token U) lines"
  using find_year_cases [of U lines] by (auto simp: list_ex_iff)

lemma find_year_never_raises: "find_year U lines \<noteq> Inl e"
  using find_year_cases [of U lines] by auto

lemma split_lines_nonempty: "split_lines s \<noteq> []"
  by (induction s) (auto split: list.splits)



lemma parse_block_notext: "text_prop b = Inl e \<Longrightarrow> parse_block U b = Skip"
  by (simp add: parse_block_def)

lemma parse_block_undated:
  "text_prop b = Inr t \<Longrightarrow> find_year U (split_lines (strip t)) = Inr None \<Longrightarrow>
     parse_block U b = Skip"
  by (simp add: parse_block_def)

lemma max_by_len_split_lines:
  "\<exists>longest. max_by_len (split_lines s) = Inr longest"
  using split_lines_nonempty [of s] by (cases "split_lines s") (simp_all add: max_by_len_def)

lemma parse_block_dated:
  assumes "text_prop b = Inr t" "find_year U (split_lines (strip t)) = Inr (Some (d, y))"
  shows "\<exists>longest. parse_block U b =
     (if y < 2023 then Stop
      else Keep \<lparr>date = d, review_text = longest,
                 rating = or_default (extract_star_rating b) 5\<rparr>)"
proof -
  have "d \<noteq> []" using assms(2) find_year_Some by blast
  moreover obtain longest where "max_by_len (split_lines (strip t)) = Inr longest"
    using max_by_len_split_lines by blast
  ultimately have "parse_block U b =
     (if y < 2023 then Stop
      else Keep \<lparr>date = d, review_text = longest,
                 rating = or_default (extract_star_rating b) 5\<rparr>)"
    using assms by (simp add: parse_block_def)
  then show ?thesis by blast
qed

lemma block_year_dated:
  "text_prop b = Inr t \<Longrightarrow> find_year U (split_lines (strip t)) = Inr (Some (d, y)) \<Longrightarrow>
     block_year U b = Some y"
  by (simp add: block_year_def)

lemma block_year_undated:
  "text_prop b = Inr t \<Longrightarrow> find_year U (split_lines (strip t)) = Inr None \<Longrightarrow>
     block_year U b = None"
  by (simp add: block_year_def)

lemma block_year_notext: "text_prop b = Inl e \<Longrightarrow> block_year U b = None"
  by (simp add: block_year_def)

text \<open>The three ways a block can be: unreadable, undated, dated.\<close>

lemma block_cases:
  obtains e where "text_prop b = Inl e"
  | t where "text_prop b = Inr t" "find_year U (split_lines (strip t)) = Inr None"
  | t d y where "text_prop b = Inr t" "find_year U (split_lines (strip t)) = Inr (Some (d, y))"
proof (cases "text_prop b")
  case (Inl e)
  then show ?thesis using that(1) by blast
next
  case (Inr t)
  show ?thesis
  proof (cases "find_year U (split_lines (strip t))")
    case (Inl e)
    then show ?thesis using find_year_never_raises by blast
  next
    case fy: (Inr res)
    show ?thesis
    proof (cases res)
      case None
      then show ?thesis using Inr fy that(2) by blast
    next
      case (Some dy)
      then show ?thesis using Inr fy that(3) [of t "fst dy" "snd dy"] by simp
    qed
  qed
qed

lemma parse_block_Stop: "parse_block U b = Stop \<longleftrightarrow> is_old U b"
proof (cases rule: block_cases [where b = b and U = U])
  case (1 e)
  then show ?thesis by (simp add: parse_block_notext is_old_def block_year_notext)
next
  case (2 t)
  then show ?thesis by (simp add: parse_block_undated is_old_def block_year_undated)
next
  case (3 t d y)
  then obtain longest where "parse_block U b =
     (if y < 2023 then Stop
      else Keep \<lparr>date = d, review_text = longest,
                 rating = or_default (extract_star_rating b) 5\<rparr>)"
    using parse_block_dated by blast
  moreover have "block_year U b = Some y" using 3 by (rule block_year_dated)
  ultimately show ?thesis by (simp add: is_old_def)
qed

lemma parse_block_Keep:
  assumes "parse_block U b = Keep r"
  shows "\<exists>y. line_year U (date r) = Some y \<and> 2023 \<le> y \<and> block_year U b = Some y"
proof (cases rule: block_cases [where b = b and U = U])
  case (1 e)
  then show ?thesis using assms by (simp add: parse_block_notext)
next
  case (2 t)
  then show ?thesis using assms by (simp add: parse_block_undated)
next
  case (3 t d y)
  then obtain longest where "parse_block U b =
     (if y < 2023 then Stop
      else Keep \<lparr>date = d, review_text = longest,
                 rating = or_default (extract_star_rating b) 5\<rparr>)"
    using parse_block_dated by blast
  with assms have "date r = d" "2023 \<le> y" by (auto split: if_splits)
  moreover have "line_year U d = Some y" using 3(2) find_year_Some by blast
  moreover have "block_year U b = Some y" using 3 by (rule block_year_dated)
  ultimately show ?thesis by simp
qed

lemma scan_blocks_no_old:
  "\<not> list_ex (is_old U) bs \<Longrightarrow> snd (scan_blocks U bs rs) = False"
proof (induction bs arbitrary: rs)
  case Nil
  then show ?case by simp
next
  case (Cons b bs)
  then have "parse_block U b \<noteq> Stop" by (simp add: parse_block_Stop)
  then show ?case using Cons by (cases "parse_block U b") auto
qed

lemma scan_blocks_cutoff:
  "\<not> list_ex (is_old U) pre \<Longrightarrow> is_old U b \<Longrightarrow>
     scan_blocks U (pre @ b # post) rs = (fst (scan_blocks U pre rs), True)"
proof (induction pre arbitrary: rs)
  case Nil
  then show ?case by (simp add: parse_block_Stop [symmetric])
next
  case (Cons a pre)
  then have "parse_block U a \<noteq> Stop" by (simp add: parse_block_Stop)
  then show ?case using Cons by (cases "parse_block U a") auto
qed

lemma reviews_loop_cutoff:
  assumes "found_blocks (rnds i) = Inr (pre @ b # post)" "\<not> list_ex (is_old U) pre" "is_old U b"
  shows "reviews_loop (Suc fuel) U rnds i acc = Some (Inr (fst (scan_blocks U pre acc)))"
  using assms scan_blocks_cutoff [of U pre b post acc] by simp

lemma reviews_year_bound:
  assumes "collect_reviews fuel U site = Some (Inr rs)"
  shows "list_all (\<lambda>r. \<exists>y. line_year U (date r) = Some y \<and> 2023 \<le> y) rs"
proof (rule collect_reviews_all [OF _ assms])
  fix b r
  assume "parse_block U b = Keep r"
  then show "\<exists>y. line_year U (date r) = Some y \<and> 2023 \<le> y"
    using parse_block_Keep by blast
qed

text \<open>
  C1. Every review that the pass returns has a date line whose year is at least 2023. At
  the first block of a scan whose year is below 2023 the scan ends and the pass returns:
  its result is what the blocks before that one gave, whatever comes after. With the
  blocks \<open>Jan 2023\<close>, \<open>Dec 2022\<close> the pass returns the one review of Jan 2023.
\<close>

theorem temporal_cutoff:
  "(collect_reviews fuel U site = Some (Inr rs) \<longrightarrow>
      (\<forall>r \<in> set rs. \<exists>y. line_year U (date r) = Some y \<and> 2023 \<le> y))
   \<and> (found_blocks (rnds i) = Inr (pre @ b # post) \<and> \<not> list_ex (is_old U) pre \<and> is_old U b \<longrightarrow>
        scan_blocks U (pre @ b # post) acc = (fst (scan_blocks U pre acc), True)
        \<and> reviews_loop (Suc fuel) U rnds i acc = Some (Inr (fst (scan_blocks U pre acc))))
   \<and> collect_reviews (Suc fuel) U demo_reviews
       = Some (Inr [\<lparr>date = ascii ''Jan 2023'', review_text = ascii ''Jan 2023'', rating = 4\<rparr>])"
proof (intro conjI impI)
  assume "collect_reviews fuel U site = Some (Inr rs)"
  then have "list_all (\<lambda>r. \<exists>y. line_year U (date r) = Some y \<and> 2023 \<le> y) rs"
    by (rule reviews_year_bound)
  then show "\<forall>r \<in> set rs. \<exists>y. line_year U (date r) = Some y \<and> 2023 \<le> y"
    by (simp add: list_all_iff)
next
  assume h: "found_blocks (rnds i) = Inr (pre @ b # post) \<and> \<not> list_ex (is_old U) pre \<and> is_old U b"
  then show "scan_blocks U (pre @ b # post) acc = (fst (scan_blocks U pre acc), True)"
    using scan_blocks_cutoff by blast
  from h show "reviews_loop (Suc fuel) U rnds i acc = Some (Inr (fst (scan_blocks U pre acc)))"
    using reviews_loop_cutoff by blast
next
  show "collect_reviews (Suc fuel) U demo_reviews
       = Some (Inr [\<lparr>date = ascii ''Jan 2023'', review_text = ascii ''Jan 2023'', rating = 4\<rparr>])"
    using demo_reviews_run [of fuel U] by (simp add: demo_results_def)
qed

theorem temporal_cutoff_witness:
  "collect_reviews (Suc 0) ascii_only demo_reviews
     = Some (Inr [\<lparr>date = ascii ''Jan 2023'', review_text = ascii ''Jan 2023'', rating = 4\<rparr>])
   \<and> line_year ascii_only (ascii ''Jan 2023'') = Some 2023
   \<and> found_blocks demo_round
       = Inr ([elem (ascii ''Jan 2023'') 4] @ elem (ascii ''Dec 2022'') 2 # [])
   \<and> list_ex (is_old ascii_only) [elem (ascii ''Jan 2023'') 4] = False
   \<and> is_old ascii_only (elem (ascii ''Dec 2022'') 2)
   \<and> reviews_loop (Suc (Suc 0)) ascii_only (\<lambda>i. demo_round) 0 []
       = Some (Inr (fst (scan_blocks ascii_only [elem (ascii ''Jan 2023'') 4] [])))
   \<and> fst (scan_blocks ascii_only [elem (ascii ''Jan 2023'') 4] [])
       = [\<lparr>date = ascii ''Jan 2023'', review_text = ascii ''Jan 2023'', rating = 4\<rparr>]"
proof -
  let ?r = "\<lparr>date = ascii ''Jan 2023'', review_text = ascii ''Jan 2023'', rating = 4\<rparr>"
  let ?e1 = "elem (ascii ''Jan 2023'') 4"
  let ?e2 = "elem (ascii ''Dec 2022'') 2"
  have run: "collect_reviews (Suc 0) ascii_only demo_reviews = Some (Inr [?r])"
    using demo_reviews_run [of 0 ascii_only] by (simp add: demo_results_def)
  have blocks: "found_blocks demo_round = Inr ([?e1] @ ?e2 # [])"
    by (simp add: demo_round_def)
  have young: "\<not> list_ex (is_old ascii_only) [?e1]"
    by (simp add: is_old_def block_year_def elem_def text_defs)
  have old: "is_old ascii_only ?e2"
    by (simp add: is_old_def block_year_def elem_def text_defs)
  have yr: "line_year ascii_only (ascii ''Jan 2023'') = Some 2023"
    by (simp add: line_year_def text_defs)
  have scan: "fst (scan_blocks ascii_only [?e1] []) = [?r]"
    by (simp add: elem_def parse_block_def add_review_def extract_star_rating_def or_default_def
        text_defs Let_def)
  note t = temporal_cutoff [of "Suc 0" ascii_only demo_reviews "[?r]" "\<lambda>i. demo_round" 0
      "[?e1]" ?e2 "[]" "[]"]
  from t run blocks young old yr scan show ?thesis by simp
qed

text \<open>
  C10. A block has a date exactly when one of its lines contains \<open>20\<close> followed by two
  digits; the date is the first such line and its year lies between 2000 and 2099. A
  block with no such line is skipped: it gives no record and does not end the scan, as a
  block dated 1999 shows.
\<close>

theorem year_token_dating:
  "((\<exists>d y. find_year U lines = Inr (Some (d, y))) = list_ex (has_year_token U) lines)
   \<and> (find_year U lines = Inr (Some (d, y)) \<longrightarrow>
        (\<exists>before after. lines = before @ d # after \<and> \<not> list_ex (has_year_token U) before)
        \<and> has_year_token U d \<and> line_year U d = Some y \<and> 2000 \<le> y \<and> y \<le> 2099)
   \<and> (text_prop b = Inr t \<and> \<not> list_ex (has_year_token U) (split_lines (strip t)) \<longrightarrow>
        parse_block U b = Skip \<and> \<not> is_old U b
        \<and> scan_blocks U (b # bs) rs = scan_blocks U bs rs)
   \<and> parse_block U (elem (ascii ''Dec 1999'') 3) = Skip
   \<and> scan_blocks U old_token_blocks []
       = ([\<lparr>date = ascii ''Jan 2023'', review_text = ascii ''Jan 2023'', rating = 4\<rparr>], False)"
proof (intro conjI impI)
  show "(\<exists>d y. find_year U lines = Inr (Some (d, y))) = list_ex (has_year_token U) lines"
    using find_year_cases [of U lines] by auto
next
  assume fy: "find_year U lines = Inr (Some (d, y))"
  then show "\<exists>before after. lines = before @ d # after \<and> \<not> list_ex (has_year_token U) before"
    using find_year_Some by blast
  from fy show "has_year_token U d" using find_year_Some by blast
  from fy show ly: "line_year U d = Some y" using find_year_Some by blast
  then show "2000 \<le> y" "y \<le> 2099" using line_year_range by blast+
next
  assume h: "text_prop b = Inr t \<and> \<not> list_ex (has_year_token U) (split_lines (strip t))"
  then have none: "find_year U (split_lines (strip t)) = Inr None" by (simp add: find_year_None)
  with h show skip: "parse_block U b = Skip" using parse_block_undated by blast
  then show "\<not> is_old U b" by (simp add: parse_block_Stop [symmetric])
  from skip show "scan_blocks U (b # bs) rs = scan_blocks U bs rs" by simp
next
  show "parse_block U (elem (ascii ''Dec 1999'') 3) = Skip"
    by (simp add: elem_def parse_block_def text_defs)
next
  show "scan_blocks U old_token_blocks []
       = ([\<lparr>date = ascii ''Jan 2023'', review_text = ascii ''Jan 2023'', rating = 4\<rparr>], False)"
    by (simp add: old_token_blocks_def elem_def parse_block_def add_review_def
        extract_star_rating_def or_default_def text_defs Let_def)
qed

theorem year_token_dating_witness:
  "find_year ascii_only [ascii ''Great'', ascii ''Jan 2023'', ascii ''2024''] = Inr (Some (ascii ''Jan 2023'', 2023))
   \<and> has_year_token ascii_only (ascii ''Jan 2023'')
   \<and> line_year ascii_only (ascii ''Jan 2023'') = Some 2023
   \<and> text_prop (elem (ascii ''Dec 1999'') 3) = Inr (ascii ''Dec 1999'')
   \<and> list_ex (has_year_token ascii_only) (split_lines (strip (ascii ''Dec 1999''))) = False
   \<and> parse_block ascii_only (elem (ascii ''Dec 1999'') 3) = Skip
   \<and> is_old ascii_only (elem (ascii ''Dec 1999'') 3) = False"
proof -
  have fy: "find_year ascii_only [ascii ''Great'', ascii ''Jan 2023'', ascii ''2024'']
      = Inr (Some (ascii ''Jan 2023'', 2023))"
    by (simp add: text_defs)
  have tx: "text_prop (elem (ascii ''Dec 1999'') 3) = Inr (ascii ''Dec 1999'')"
    by (simp add: elem_def)
  have no: "\<not> list_ex (has_year_token ascii_only) (split_lines (strip (ascii ''Dec 1999'')))"
    by (simp add: has_year_token_search text_defs)
  note t = year_token_dating [of ascii_only "[ascii ''Great'', ascii ''Jan 2023'', ascii ''2024'']"
      "ascii ''Jan 2023''" 2023 "elem (ascii ''Dec 1999'') 3" "ascii ''Dec 1999''" "[]" "[]"]
  from t fy tx no show ?thesis by simp
qed

section \<open>Duplicates\<close>

lemma add_card_distinct:
  "distinct (map title (fst st)) \<Longrightarrow> distinct (map title (fst (add_card U c st)))"
  by (auto simp: add_card_def list_ex_iff split: option.splits)

lemma scan_cards_distinct:
  "distinct (map title (fst st)) \<Longrightarrow> distinct (map title (fst (scan_cards U cs st)))"
  by (induction cs arbitrary: st) (simp_all add: add_card_distinct)

lemma products_loop_distinct:
  "distinct (map title ps) \<Longrightarrow> products_loop fuel U pages i ps = Some (Inr st) \<Longrightarrow>
     distinct (map title (products st))"
proof (induction fuel arbitrary: i ps)
  case 0
  then show ?case by simp
next
  case (Suc fuel)
  from Suc.prems(2) obtain cs where cs: "pages i = Inr cs"
    by (cases "pages i") auto
  let ?st = "scan_cards U cs (ps, 0)"
  have d: "distinct (map title (fst ?st))"
    using Suc.prems(1) scan_cards_distinct [of "(ps, 0)" U cs] by simp
  show ?case
  proof (cases "cs = [] \<or> snd ?st = 0")
    case True
    then show ?thesis using Suc.prems cs d by (auto simp: Let_def split: if_splits)
  next
    case False
    then have "products_loop fuel U pages (i + 1) (fst ?st) = Some (Inr st)"
      using Suc.prems(2) cs by (simp add: Let_def)
    then show ?thesis using Suc.IH d by blast
  qed
qed

lemma collect_products_distinct:
  assumes "collect_products fuel U pages = Some (Inr ps)"
  shows "distinct (map title ps)"
proof -
  from assms obtain st where "products_loop fuel U pages 1 [] = Some (Inr st)" "ps = products st"
    by (auto simp: collect_products_def split: option.splits sum.splits)
  then show ?thesis using products_loop_distinct [of "[]"] by simp
qed

lemma add_review_distinct:
  "distinct (map review_text rs) \<Longrightarrow> distinct (map review_text (add_review r rs))"
  by (auto simp: add_review_def list_ex_iff)

lemma scan_blocks_distinct:
  "distinct (map review_text rs) \<Longrightarrow> distinct (map review_text (fst (scan_blocks U bs rs)))"
proof (induction bs arbitrary: rs)
  case Nil
  then show ?case by simp
next
  case (Cons b bs)
  then show ?case by (cases "parse_block U b") (simp_all add: add_review_distinct)
qed

lemma reviews_loop_distinct:
  "distinct (map review_text rs) \<Longrightarrow> reviews_loop fuel U rnds i rs = Some (Inr out) \<Longrightarrow>
     distinct (map review_text out)"
proof (induction fuel arbitrary: i rs)
  case 0
  then show ?case by simp
next
  case (Suc fuel)
  from Suc.prems(2) obtain blocks where blocks: "found_blocks (rnds i) = Inr blocks"
    by (cases "found_blocks (rnds i)") auto
  let ?st = "scan_blocks U blocks rs"
  have d: "distinct (map review_text (fst ?st))" using Suc.prems(1) by (rule scan_blocks_distinct)
  show ?case
  proof (cases "out = fst ?st")
    case True
    then show ?thesis using d by simp
  next
    case False
    then have "reviews_loop fuel U rnds (i + 1) (fst ?st) = Some (Inr out)"
      using Suc.prems(2) blocks
      by (auto simp: Let_def split: if_splits sum.splits bool.splits)
    then show ?thesis using Suc.IH d by blast
  qed
qed

lemma collect_reviews_distinct:
  assumes "collect_reviews fuel U site = Some (Inr rs)"
  shows "distinct (map review_text rs)"
proof -
  from assms have "reviews_loop fuel U (rounds site) 0 [] = Some (Inr rs)"
    by (auto simp: collect_reviews_def split: sum.splits)
  then show ?thesis using reviews_loop_distinct [of "[]"] by simp
qed

lemma add_testimonial_distinct:
  "distinct (map testimonial_text ts) \<Longrightarrow> distinct (map testimonial_text (add_testimonial c ts))"
  by (auto simp: add_testimonial_def Let_def list_ex_iff split: sum.splits)

lemma scan_testimonials_distinct:
  "distinct (map testimonial_text ts) \<Longrightarrow> distinct (map testimonial_text (scan_testimonials cs ts))"
  by (induction cs arbitrary: ts) (simp_all add: add_testimonial_distinct)

lemma collect_testimonials_distinct:
  assumes "collect_testimonials fuel site = Some (Inr ts)"
  shows "distinct (map testimonial_text ts)"
proof -
  from assms obtain cs where "ts = scan_testimonials cs []"
    using collect_testimonials_scan by blast
  then show ?thesis using scan_testimonials_distinct [of "[]"] by simp
qed

lemma add_card_duplicate:
  "parse_card U c = Some p \<Longrightarrow> title p \<in> set (map title ps) \<Longrightarrow> add_card U c (ps, n) = (ps, n)"
  by (auto simp: add_card_def list_ex_iff)

lemma add_review_duplicate:
  "review_text r \<in> set (map review_text rs) \<Longrightarrow> add_review r rs = rs"
  by (auto simp: add_review_def list_ex_iff)

lemma add_testimonial_duplicate:
  "text_prop c = Inr t \<Longrightarrow> strip (replace_newlines t) \<in> set (map testimonial_text ts) \<Longrightarrow>
     add_testimonial c ts = ts"
  by (auto simp: add_testimonial_def Let_def list_ex_iff)

text \<open>
  C2. In the document of a run, and in what each pass returns, no two products have the
  same title, no two reviews the same text, no two testimonials the same text. A
  candidate whose key is the key of a record already accepted leaves the list as it is.
\<close>

theorem dedup_unique:
  "(run_scraper fuel U s = Some out \<and> written out = Some doc \<longrightarrow>
      distinct (map title (res_products doc))
      \<and> distinct (map review_text (res_reviews doc))
      \<and> distinct (map testimonial_text (res_testimonials doc)))
   \<and> (collect_products fuel U pages = Some (Inr ps) \<longrightarrow> distinct (map title ps))
   \<and> (collect_reviews fuel U rsite = Some (Inr rs) \<longrightarrow> distinct (map review_text rs))
   \<and> (collect_testimonials fuel tsite = Some (Inr ts) \<longrightarrow> distinct (map testimonial_text ts))
   \<and> (parse_card U c = Some p \<and> title p \<in> set (map title acc) \<longrightarrow>
        add_card U c (acc, n) = (acc, n))
   \<and> (review_text r \<in> set (map review_text racc) \<longrightarrow> add_review r racc = racc)
   \<and> (text_prop c' = Inr t \<and> strip (replace_newlines t) \<in> set (map testimonial_text tacc) \<longrightarrow>
        add_testimonial c' tacc = tacc)"
proof (intro conjI impI)
  assume run: "run_scraper fuel U s = Some out \<and> written out = Some doc"
  then have parts: "collect_all fuel U s = Some (Inr doc)" using run_scraper_written by blast
  from collect_all_parts [OF parts] show "distinct (map title (res_products doc))"
    using collect_products_distinct by blast
  from collect_all_parts [OF parts] show "distinct (map review_text (res_reviews doc))"
    using collect_reviews_distinct by blast
  from collect_all_parts [OF parts] show "distinct (map testimonial_text (res_testimonials doc))"
    using collect_testimonials_distinct by blast
next
  assume "collect_products fuel U pages = Some (Inr ps)"
  then show "distinct (map title ps)" by (rule collect_products_distinct)
next
  assume "collect_reviews fuel U rsite = Some (Inr rs)"
  then show "distinct (map review_text rs)" by (rule collect_reviews_distinct)
next
  assume "collect_testimonials fuel tsite = Some (Inr ts)"
  then show "distinct (map testimonial_text ts)" by (rule collect_testimonials_distinct)
next
  assume "parse_card U c = Some p \<and> title p \<in> set (map title acc)"
  then show "add_card U c (acc, n) = (acc, n)" using add_card_duplicate by blast
next
  assume "review_text r \<in> set (map review_text racc)"
  then show "add_review r racc = racc" by (rule add_review_duplicate)
next
  assume "text_prop c' = Inr t \<and> strip (replace_newlines t) \<in> set (map testimonial_text tacc)"
  then show "add_testimonial c' tacc = tacc" using add_testimonial_duplicate by blast
qed

theorem dedup_unique_witness:
  "run_scraper (Suc (Suc 0)) ascii_only demo_site
     = Some \<lparr>raised = None, quit_called = True, written = Some demo_results\<rparr>
   \<and> distinct (map title (res_products demo_results))
   \<and> distinct (map review_text (res_reviews demo_results))
   \<and> distinct (map testimonial_text (res_testimonials demo_results))
   \<and> collect_products (Suc (Suc 0)) ascii_only demo_pages = Some (Inr (res_products demo_results))
   \<and> collect_reviews (Suc (Suc 0)) ascii_only demo_reviews = Some (Inr (res_reviews demo_results))
   \<and> collect_testimonials (Suc (Suc 0)) demo_testimonials
       = Some (Inr (res_testimonials demo_results))
   \<and> parse_card ascii_only (elem (ascii ''Widget'' @ [10] @ ascii ''$12.99 in stock'') 0)
       = Some \<lparr>title = ascii ''Widget'', price = ascii ''$12.99''\<rparr>
   \<and> add_card ascii_only (elem (ascii ''Widget'' @ [10] @ ascii ''$12.99 in stock'') 0)
        (res_products demo_results, 0) = (res_products demo_results, 0)
   \<and> add_review \<lparr>date = ascii ''Feb 2024'', review_text = ascii ''Jan 2023'', rating = 1\<rparr>
        (res_reviews demo_results) = res_reviews demo_results
   \<and> add_testimonial (elem (ascii ''Great shop'') 3) (res_testimonials demo_results)
       = res_testimonials demo_results"
proof -
  let ?c = "elem (ascii ''Widget'' @ [10] @ ascii ''$12.99 in stock'') 0"
  let ?p = "\<lparr>title = ascii ''Widget'', price = ascii ''$12.99''\<rparr>"
  let ?r = "\<lparr>date = ascii ''Feb 2024'', review_text = ascii ''Jan 2023'', rating = 1\<rparr>"
  let ?c' = "elem (ascii ''Great shop'') 3"
  have pc: "parse_card ascii_only ?c = Some ?p"
    by (simp add: parse_card_def elem_def text_defs)
  have k1: "title ?p \<in> set (map title (res_products demo_results))"
    by (simp add: demo_results_def)
  have k2: "review_text ?r \<in> set (map review_text (res_reviews demo_results))"
    by (simp add: demo_results_def)
  have tx: "text_prop ?c' = Inr (ascii ''Great shop'')" by (simp add: elem_def)
  have k3: "strip (replace_newlines (ascii ''Great shop''))
      \<in> set (map testimonial_text (res_testimonials demo_results))"
    by (simp add: demo_results_def text_defs)
  note t = dedup_unique [of "Suc (Suc 0)" ascii_only demo_site
      "\<lparr>raised = None, quit_called = True, written = Some demo_results\<rparr>" demo_results
      demo_pages "res_products demo_results" demo_reviews "res_reviews demo_results"
      demo_testimonials "res_testimonials demo_results" ?c ?p "res_products demo_results" 0
      ?r "res_reviews demo_results" ?c' "ascii ''Great shop''" "res_testimonials demo_results"]
  from t demo_run [of 0 ascii_only] demo_products [of 0 ascii_only]
    demo_reviews_run [of "Suc 0" ascii_only] demo_testimonials_run [of "Suc 0"] pc k1 k2 tx k3
  show ?thesis by simp
qed

section \<open>The button and the run\<close>

lemma reviews_loop_break:
  assumes "found_blocks (rnds i) = Inr blocks" "snd (scan_blocks U blocks acc) = False"
    "scrolled (rnds i) = Inr u" "try_load_more (rnds i) (length blocks) \<noteq> Inr True"
  shows "reviews_loop (Suc fuel) U rnds i acc = Some (Inr (fst (scan_blocks U blocks acc)))"
proof (cases "try_load_more (rnds i) (length blocks)")
  case (Inl e)
  then show ?thesis using assms by simp
next
  case (Inr go)
  then have "go = False" using assms(4) by simp
  then show ?thesis using assms Inr by simp
qed

text \<open>
  C7. In a turn of the review loop that did not reach the cutoff and could scroll: when
  looking for the button or asking whether it is displayed raises, when the button is
  not displayed, and when no poll of the wait sees more blocks than before, the pass
  returns the reviews accepted so far; it does not raise.
\<close>

theorem load_more_degrades:
  "(found_blocks (rnds i) = Inr blocks \<and> snd (scan_blocks U blocks acc) = False
      \<and> scrolled (rnds i) = Inr u \<and> load_more_displayed (rnds i) = Inl e \<longrightarrow>
      reviews_loop (Suc fuel) U rnds i acc = Some (Inr (fst (scan_blocks U blocks acc))))
   \<and> (found_blocks (rnds i) = Inr blocks \<and> snd (scan_blocks U blocks acc) = False
      \<and> scrolled (rnds i) = Inr u \<and> load_more_displayed (rnds i) = Inr False \<longrightarrow>
      reviews_loop (Suc fuel) U rnds i acc = Some (Inr (fst (scan_blocks U blocks acc))))
   \<and> (found_blocks (rnds i) = Inr blocks \<and> snd (scan_blocks U blocks acc) = False
      \<and> scrolled (rnds i) = Inr u \<and> load_more_displayed (rnds i) = Inr True
      \<and> clicked (rnds i) = Inr u' \<and> list_ex (\<lambda>n. n > length blocks) (polled_counts (rnds i)) = False \<longrightarrow>
      try_load_more (rnds i) (length blocks) = Inl TimeoutException
      \<and> reviews_loop (Suc fuel) U rnds i acc = Some (Inr (fst (scan_blocks U blocks acc))))"
proof (intro conjI impI)
  assume h: "found_blocks (rnds i) = Inr blocks \<and> snd (scan_blocks U blocks acc) = False
      \<and> scrolled (rnds i) = Inr u \<and> load_more_displayed (rnds i) = Inl e"
  then have "try_load_more (rnds i) (length blocks) \<noteq> Inr True" by (simp add: try_load_more_def)
  with h show "reviews_loop (Suc fuel) U rnds i acc = Some (Inr (fst (scan_blocks U blocks acc)))"
    using reviews_loop_break by blast
next
  assume h: "found_blocks (rnds i) = Inr blocks \<and> snd (scan_blocks U blocks acc) = False
      \<and> scrolled (rnds i) = Inr u \<and> load_more_displayed (rnds i) = Inr False"
  then have "try_load_more (rnds i) (length blocks) \<noteq> Inr True" by (simp add: try_load_more_def)
  with h show "reviews_loop (Suc fuel) U rnds i acc = Some (Inr (fst (scan_blocks U blocks acc)))"
    using reviews_loop_break by blast
next
  assume h: "found_blocks (rnds i) = Inr blocks \<and> snd (scan_blocks U blocks acc) = False
      \<and> scrolled (rnds i) = Inr u \<and> load_more_displayed (rnds i) = Inr True
      \<and> clicked (rnds i) = Inr u' \<and> list_ex (\<lambda>n. n > length blocks) (polled_counts (rnds i)) = False"
  then show t: "try_load_more (rnds i) (length blocks) = Inl TimeoutException"
    by (simp add: try_load_more_def)
  then have "try_load_more (rnds i) (length blocks) \<noteq> Inr True" by simp
  with h show "reviews_loop (Suc fuel) U rnds i acc = Some (Inr (fst (scan_blocks U blocks acc)))"
    using reviews_loop_break by blast
qed

lemma button_round_scan:
  "scan_blocks ascii_only [elem (ascii ''Jan 2023'') 4] []
     = ([\<lparr>date = ascii ''Jan 2023'', review_text = ascii ''Jan 2023'', rating = 4\<rparr>], False)"
  by (simp add: elem_def parse_block_def add_review_def extract_star_rating_def or_default_def
      text_defs Let_def)

theorem load_more_degrades_witness:
  "reviews_loop (Suc 0) ascii_only (\<lambda>i. button_round (Inl NoSuchElementException) []) 0 []
     = Some (Inr [\<lparr>date = ascii ''Jan 2023'', review_text = ascii ''Jan 2023'', rating = 4\<rparr>])
   \<and> reviews_loop (Suc 0) ascii_only (\<lambda>i. button_round (Inr False) []) 0 []
     = Some (Inr [\<lparr>date = ascii ''Jan 2023'', review_text = ascii ''Jan 2023'', rating = 4\<rparr>])
   \<and> list_ex (\<lambda>n. n > length [elem (ascii ''Jan 2023'') 4]) [1, 0, 1] = False
   \<and> try_load_more (button_round (Inr True) [1, 0, 1]) 1 = Inl TimeoutException
   \<and> reviews_loop (Suc 0) ascii_only (\<lambda>i. button_round (Inr True) [1, 0, 1]) 0 []
     = Some (Inr [\<lparr>date = ascii ''Jan 2023'', review_text = ascii ''Jan 2023'', rating = 4\<rparr>])"
proof -
  let ?bs = "[elem (ascii ''Jan 2023'') 4]"
  note a = load_more_degrades [of "\<lambda>i. button_round (Inl NoSuchElementException) []" 0 ?bs
      ascii_only "[]" "()" NoSuchElementException 0 "()"]
  note b = load_more_degrades [of "\<lambda>i. button_round (Inr False) []" 0 ?bs
      ascii_only "[]" "()" NoSuchElementException 0 "()"]
  note c = load_more_degrades [of "\<lambda>i. button_round (Inr True) [1, 0, 1]" 0 ?bs
      ascii_only "[]" "()" NoSuchElementException 0 "()"]
  from a b c button_round_scan show ?thesis by (simp add: button_round_def)
qed

lemma collect_all_raises:
  "collect_all fuel U s = Some (Inl e) \<longleftrightarrow>
     collect_products fuel U (product_pages s) = Some (Inl e)
     \<or> (\<exists>ps. collect_products fuel U (product_pages s) = Some (Inr ps)
          \<and> (collect_reviews fuel U (reviews_page s) = Some (Inl e)
              \<or> (\<exists>rs. collect_reviews fuel U (reviews_page s) = Some (Inr rs)
                    \<and> collect_testimonials fuel (testimonials_page s) = Some (Inl e))))"
  by (auto simp: collect_all_def split: sum.splits option.splits)

lemma run_scraper_raises:
  assumes "browser s = Inr u" "collect_all fuel U s = Some (Inl e)"
  shows "\<exists>e'. run_scraper fuel U s = Some \<lparr>raised = Some e', quit_called = True, written = None\<rparr>"
  using assms by (cases "quit_result s") (simp_all add: run_scraper_def)

lemma run_scraper_quit:
  assumes "browser s = Inr u" "run_scraper fuel U s = Some out"
  shows "quit_called out"
  using assms by (auto simp: run_scraper_def split: option.splits sum.splits)

lemma run_scraper_written_ok:
  assumes "run_scraper fuel U s = Some out" "written out = Some doc"
  shows "raised out = None \<and> quit_called out \<and> quit_result s = Inr ()"
  using assms by (auto simp: run_scraper_def split: option.splits sum.splits)

text \<open>
  C8. When a pass raises (the passes before it having returned), the run ends with an
  exception, writes no document, and has called \<open>driver.quit\<close>. A document is written
  only when the three passes have returned and \<open>quit\<close> has been called. Every run that
  got its browser and ends calls \<open>quit\<close>.
\<close>

theorem all_or_nothing:
  "(browser s = Inr u \<and> collect_products fuel U (product_pages s) = Some (Inl e) \<longrightarrow>
      (\<exists>e'. run_scraper fuel U s = Some \<lparr>raised = Some e', quit_called = True, written = None\<rparr>))
   \<and> (browser s = Inr u \<and> collect_products fuel U (product_pages s) = Some (Inr ps)
        \<and> collect_reviews fuel U (reviews_page s) = Some (Inl e) \<longrightarrow>
      (\<exists>e'. run_scraper fuel U s = Some \<lparr>raised = Some e', quit_called = True, written = None\<rparr>))
   \<and> (browser s = Inr u \<and> collect_products fuel U (product_pages s) = Some (Inr ps)
        \<and> collect_reviews fuel U (reviews_page s) = Some (Inr rs)
        \<and> collect_testimonials fuel (testimonials_page s) = Some (Inl e) \<longrightarrow>
      (\<exists>e'. run_scraper fuel U s = Some \<lparr>raised = Some e', quit_called = True, written = None\<rparr>))
   \<and> (run_scraper fuel U s = Some out \<and> written out = Some doc \<longrightarrow>
        collect_products fuel U (product_pages s) = Some (Inr (res_products doc))
        \<and> collect_reviews fuel U (reviews_page s) = Some (Inr (res_reviews doc))
        \<and> collect_testimonials fuel (testimonials_page s) = Some (Inr (res_testimonials doc))
        \<and> raised out = None \<and> quit_called out)
   \<and> (browser s = Inr u \<and> run_scraper fuel U s = Some out \<longrightarrow> quit_called out)"
proof (intro conjI impI)
  assume "browser s = Inr u \<and> collect_products fuel U (product_pages s) = Some (Inl e)"
  then have "browser s = Inr u" "collect_all fuel U s = Some (Inl e)"
    by (simp_all add: collect_all_raises)
  then show "\<exists>e'. run_scraper fuel U s = Some \<lparr>raised = Some e', quit_called = True, written = None\<rparr>"
    by (rule run_scraper_raises)
next
  assume "browser s = Inr u \<and> collect_products fuel U (product_pages s) = Some (Inr ps)
        \<and> collect_reviews fuel U (reviews_page s) = Some (Inl e)"
  then have "browser s = Inr u" "collect_all fuel U s = Some (Inl e)"
    by (simp_all add: collect_all_raises)
  then show "\<exists>e'. run_scraper fuel U s = Some \<lparr>raised = Some e', quit_called = True, written = None\<rparr>"
    by (rule run_scraper_raises)
next
  assume "browser s = Inr u \<and> collect_products fuel U (product_pages s) = Some (Inr ps)
        \<and> collect_reviews fuel U (reviews_page s) = Some (Inr rs)
        \<and> collect_testimonials fuel (testimonials_page s) = Some (Inl e)"
  then have "browser s = Inr u" "collect_all fuel U s = Some (Inl e)"
    by (simp_all add: collect_all_raises)
  then show "\<exists>e'. run_scraper fuel U s = Some \<lparr>raised = Some e', quit_called = True, written = None\<rparr>"
    by (rule run_scraper_raises)
next
  assume run: "run_scraper fuel U s = Some out \<and> written out = Some doc"
  then have parts: "collect_all fuel U s = Some (Inr doc)" using run_scraper_written by blast
  from collect_all_parts [OF parts]
  show "collect_products fuel U (product_pages s) = Some (Inr (res_products doc))"
    "collect_reviews fuel U (reviews_page s) = Some (Inr (res_reviews doc))"
    "collect_testimonials fuel (testimonials_page s) = Some (Inr (res_testimonials doc))"
    by simp_all
  from run show "raised out = None" "quit_called out" using run_scraper_written_ok by blast+
next
  assume "browser s = Inr u \<and> run_scraper fuel U s = Some out"
  then show "quit_called out" using run_scraper_quit by blast
qed

section \<open>The length filter of testimonials\<close>

theorem all_or_nothing_witness:
  "run_scraper (Suc (Suc 0)) ascii_only no_products_site
     = Some \<lparr>raised = Some WebDriverException, quit_called = True, written = None\<rparr>
   \<and> run_scraper (Suc (Suc 0)) ascii_only broken_site
     = Some \<lparr>raised = Some WebDriverException, quit_called = True, written = None\<rparr>
   \<and> run_scraper (Suc (Suc 0)) ascii_only no_cards_site
     = Some \<lparr>raised = Some StaleElementReferenceException, quit_called = True, written = None\<rparr>
   \<and> run_scraper (Suc (Suc 0)) ascii_only demo_site
     = Some \<lparr>raised = None, quit_called = True, written = Some demo_results\<rparr>
   \<and> collect_products (Suc (Suc 0)) ascii_only (product_pages demo_site)
       = Some (Inr (res_products demo_results))
   \<and> collect_reviews (Suc (Suc 0)) ascii_only (reviews_page demo_site)
       = Some (Inr (res_reviews demo_results))
   \<and> collect_testimonials (Suc (Suc 0)) (testimonials_page demo_site)
       = Some (Inr (res_testimonials demo_results))"
proof -
  let ?f = "Suc (Suc 0)"
  have p0: "collect_products ?f ascii_only (product_pages no_products_site) = Some (Inl WebDriverException)"
    by (simp add: no_products_site_def collect_products_def)
  have p1: "collect_products ?f ascii_only (product_pages broken_site) = Some (Inr (res_products demo_results))"
    using demo_products [of 0 ascii_only] by (simp add: broken_site_def demo_site_def)
  have r1: "collect_reviews ?f ascii_only (reviews_page broken_site) = Some (Inl WebDriverException)"
    by (simp add: broken_site_def collect_reviews_def)
  have p2: "collect_products ?f ascii_only (product_pages no_cards_site) = Some (Inr (res_products demo_results))"
    using demo_products [of 0 ascii_only] by (simp add: no_cards_site_def demo_site_def)
  have r2: "collect_reviews ?f ascii_only (reviews_page no_cards_site) = Some (Inr (res_reviews demo_results))"
    using demo_reviews_run [of "Suc 0" ascii_only] by (simp add: no_cards_site_def demo_site_def)
  have t2: "collect_testimonials ?f (testimonials_page no_cards_site) = Some (Inl StaleElementReferenceException)"
    by (simp add: no_cards_site_def collect_testimonials_def demo_testimonials_def)
  have b: "browser no_products_site = Inr ()" "browser broken_site = Inr ()"
    "browser no_cards_site = Inr ()" "browser demo_site = Inr ()"
    by (simp_all add: no_products_site_def broken_site_def no_cards_site_def demo_site_def)
  have q: "quit_result no_products_site = Inr ()" "quit_result broken_site = Inr ()"
    "quit_result no_cards_site = Inr ()"
    by (simp_all add: no_products_site_def broken_site_def no_cards_site_def demo_site_def)
  have e0: "run_scraper ?f ascii_only no_products_site
     = Some \<lparr>raised = Some WebDriverException, quit_called = True, written = None\<rparr>"
    using p0 b q by (simp add: run_scraper_def collect_all_def)
  have e1: "run_scraper ?f ascii_only broken_site
     = Some \<lparr>raised = Some WebDriverException, quit_called = True, written = None\<rparr>"
    using p1 r1 b q by (simp add: run_scraper_def collect_all_def)
  have e2: "run_scraper ?f ascii_only no_cards_site
     = Some \<lparr>raised = Some StaleElementReferenceException, quit_called = True, written = None\<rparr>"
    using p2 r2 t2 b q by (simp add: run_scraper_def collect_all_def)
  note w0 = all_or_nothing [of no_products_site "()" ?f ascii_only WebDriverException]
  note w1 = all_or_nothing [of broken_site "()" ?f ascii_only WebDriverException
      "res_products demo_results"]
  note w2 = all_or_nothing [of no_cards_site "()" ?f ascii_only StaleElementReferenceException
      "res_products demo_results" "res_reviews demo_results"]
  note w3 = all_or_nothing [of demo_site "()" ?f ascii_only WebDriverException
      "res_products demo_results" "res_reviews demo_results"
      "\<lparr>raised = None, quit_called = True, written = Some demo_results\<rparr>" demo_results]
  have c0: "\<exists>e'. run_scraper ?f ascii_only no_products_site
      = Some \<lparr>raised = Some e', quit_called = True, written = None\<rparr>"
    by (rule w0 [THEN conjunct1, THEN mp]) (simp add: b p0)
  have c1: "\<exists>e'. run_scraper ?f ascii_only broken_site
      = Some \<lparr>raised = Some e', quit_called = True, written = None\<rparr>"
    by (rule w1 [THEN conjunct2, THEN conjunct1, THEN mp]) (simp add: b p1 r1)
  have c2: "\<exists>e'. run_scraper ?f ascii_only no_cards_site
      = Some \<lparr>raised = Some e', quit_called = True, written = None\<rparr>"
    by (rule w2 [THEN conjunct2, THEN conjunct2, THEN conjunct1, THEN mp]) (simp add: b p2 r2 t2)
  have c3: "collect_products ?f ascii_only (product_pages demo_site) = Some (Inr (res_products demo_results))
      \<and> collect_reviews ?f ascii_only (reviews_page demo_site) = Some (Inr (res_reviews demo_results))
      \<and> collect_testimonials ?f (testimonials_page demo_site) = Some (Inr (res_testimonials demo_results))
      \<and> raised \<lparr>raised = None, quit_called = True, written = Some demo_results\<rparr> = None
      \<and> quit_called \<lparr>raised = None, quit_called = True, written = Some demo_results\<rparr>"
    by (rule w3 [THEN conjunct2, THEN conjunct2, THEN conjunct2, THEN conjunct1, THEN mp])
      (simp add: demo_run)
  from c0 e0 c1 e1 c2 e2 c3 demo_run [of 0 ascii_only] show ?thesis by simp
qed

lemma strip_inner:
  assumes "s \<noteq> []" "\<not> is_space (hd s)" "\<not> is_space (last s)"
  shows "strip s = s"
proof -
  have 1: "dropWhile is_space s = s" using assms(1,2) by (cases s) simp_all
  have "rev s \<noteq> []" "\<not> is_space (hd (rev s))" using assms(1,3) by (simp_all add: hd_rev)
  then have "dropWhile is_space (rev s) = rev s" by (cases "rev s") simp_all
  then show ?thesis using 1 by (simp add: strip_def)
qed

lemma testimonial_text_filter:
  assumes "collect_testimonials fuel site = Some (Inr ts)"
  shows "list_all (\<lambda>x. 10 \<le> length (testimonial_text x) \<and> length (testimonial_text x) \<le> 400
      \<and> \<not> boilerplate (testimonial_text x)) ts"
proof -
  from assms obtain cs where "ts = scan_testimonials cs []"
    using collect_testimonials_scan by blast
  moreover have "list_all (\<lambda>x. 10 \<le> length (testimonial_text x) \<and> length (testimonial_text x) \<le> 400
      \<and> \<not> boilerplate (testimonial_text x)) (scan_testimonials cs [])"
    by (rule scan_testimonials_all) simp_all
  ultimately show ?thesis by simp
qed

lemma add_testimonial_rejects:
  assumes "text_prop c = Inr t"
    "length (strip (replace_newlines t)) < 10 \<or> 400 < length (strip (replace_newlines t))
     \<or> sublist (ascii ''Take a look'') (strip (replace_newlines t))
     \<or> sublist (ascii ''collection'') (strip (replace_newlines t))"
  shows "add_testimonial c ts = ts"
  using assms by (auto simp: add_testimonial_def boilerplate_def Let_def)

lemma add_testimonial_accepts:
  assumes "text_prop c = Inr t" "10 \<le> length (strip (replace_newlines t))"
    "length (strip (replace_newlines t)) \<le> 400" "\<not> boilerplate (strip (replace_newlines t))"
    "strip (replace_newlines t) \<notin> set (map testimonial_text ts)"
  shows "add_testimonial c ts = ts @ [\<lparr>testimonial_text = strip (replace_newlines t),
      testimonial_rating = or_default (extract_star_rating c) 5\<rparr>]"
proof -
  have "\<not> list_ex (\<lambda>q. testimonial_text q = strip (replace_newlines t)) ts"
    using assms(5) by (force simp: list_ex_iff image_iff)
  then show ?thesis using assms(1-4) by (simp add: add_testimonial_def Let_def)
qed

lemma strip_replicate_x: "strip (replace_newlines (replicate n 120)) = replicate n 120"
proof (cases n)
  case 0
  then show ?thesis by (simp add: strip_def replace_newlines_def)
next
  case (Suc m)
  have "replace_newlines (replicate n 120) = replicate n 120"
    by (simp add: replace_newlines_def)
  moreover have "strip (replicate n 120) = replicate n 120"
    using Suc by (intro strip_inner) (simp_all add: is_space_def last_replicate)
  ultimately show ?thesis by simp
qed

lemma no_boilerplate_x: "\<not> boilerplate (replicate n 120)"
proof -
  have "\<not> sublist (a # w) (replicate n (120::nat))" if "a \<noteq> 120" for a w
  proof
    assume "sublist (a # w) (replicate n (120::nat))"
    then have "set (a # w) \<subseteq> set (replicate n (120::nat))" by (rule set_mono_sublist)
    then show False using that by (auto split: if_splits)
  qed
  then show ?thesis by (simp add: boilerplate_def ascii_def)
qed

lemma bound_cards_scan:
  "scan_testimonials bound_cards []
     = [\<lparr>testimonial_text = ascii ''Great shop'', testimonial_rating = 5\<rparr>,
        \<lparr>testimonial_text = replicate 400 120, testimonial_rating = 2\<rparr>]"
proof -
  let ?t1 = "\<lparr>testimonial_text = ascii ''Great shop'', testimonial_rating = 5\<rparr>"
  let ?t2 = "\<lparr>testimonial_text = replicate 400 120, testimonial_rating = 2\<rparr>"
  have s1: "add_testimonial (elem (ascii ''Great shop'') 0) [] = [?t1]"
    by (simp add: elem_def add_testimonial_def extract_star_rating_def or_default_def text_defs
        Let_def sublist_code)
  have "length (replicate 400 (120::nat)) \<noteq> length (ascii ''Great shop'')"
    by (simp add: ascii_def)
  then have ne: "replicate 400 (120::nat) \<noteq> ascii ''Great shop''" by metis
  have s2: "add_testimonial (elem (replicate 400 120) 2) [?t1] = [?t1, ?t2]"
    using add_testimonial_accepts [of "elem (replicate 400 120) 2" "replicate 400 120" "[?t1]"] ne
    by (simp add: strip_replicate_x no_boilerplate_x elem_def extract_star_rating_def or_default_def)
  have "length (strip (replace_newlines (ascii ''Too short''))) < 10" by (simp add: text_defs)
  then have s3: "add_testimonial (elem (ascii ''Too short'') 5) [?t1, ?t2] = [?t1, ?t2]"
    using add_testimonial_rejects [of "elem (ascii ''Too short'') 5" "ascii ''Too short''"]
    by (simp add: elem_def)
  have s4: "add_testimonial (elem (replicate 401 120) 3) [?t1, ?t2] = [?t1, ?t2]"
    by (rule add_testimonial_rejects [of _ "replicate 401 120"])
      (simp_all add: strip_replicate_x elem_def)
  show ?thesis by (simp add: bound_cards_def s1 s2 s3 s4)
qed

lemma bound_site_run:
  "collect_testimonials (Suc fuel) bound_site
     = Some (Inr [\<lparr>testimonial_text = ascii ''Great shop'', testimonial_rating = 5\<rparr>,
                  \<lparr>testimonial_text = replicate 400 120, testimonial_rating = 2\<rparr>])"
  by (simp add: collect_testimonials_def bound_site_def bound_cards_scan)

text \<open>
  C4, as the specification states it, fails: a testimonial of exactly 10 characters and
  one of exactly 400 characters are in the output.
\<close>

theorem length_filter_counterexample:
  "length (strip (replace_newlines (ascii ''Great shop''))) = 10
   \<and> length (strip (replace_newlines (replicate 400 120))) = 400
   \<and> collect_testimonials (Suc 0) bound_site
       = Some (Inr [\<lparr>testimonial_text = ascii ''Great shop'', testimonial_rating = 5\<rparr>,
                    \<lparr>testimonial_text = replicate 400 120, testimonial_rating = 2\<rparr>])"
proof (intro conjI)
  show "length (strip (replace_newlines (ascii ''Great shop''))) = 10" by (simp add: text_defs)
  show "length (strip (replace_newlines (replicate 400 120))) = 400"
    by (simp add: strip_replicate_x)
  show "collect_testimonials (Suc 0) bound_site
       = Some (Inr [\<lparr>testimonial_text = ascii ''Great shop'', testimonial_rating = 5\<rparr>,
                    \<lparr>testimonial_text = replicate 400 120, testimonial_rating = 2\<rparr>])"
    by (rule bound_site_run)
qed

text \<open>
  C4, amended. The text of a card is its \<open>text\<close> with every line feed replaced by a
  space, then stripped. Every testimonial in the output has a text of at least 10 and at
  most 400 characters that contains neither \<open>Take a look\<close> nor \<open>collection\<close>. A
  card whose text is shorter than 10, longer than 400, or contains one of the two markers
  is not added; any other card is added unless its text is already there.
\<close>

theorem length_filter_inclusive:
  "(collect_testimonials fuel site = Some (Inr ts) \<longrightarrow>
      (\<forall>x \<in> set ts. 10 \<le> length (testimonial_text x) \<and> length (testimonial_text x) \<le> 400
         \<and> \<not> sublist (ascii ''Take a look'') (testimonial_text x)
         \<and> \<not> sublist (ascii ''collection'') (testimonial_text x)))
   \<and> (text_prop c = Inr t
        \<and> (length (strip (replace_newlines t)) < 10 \<or> 400 < length (strip (replace_newlines t))
            \<or> sublist (ascii ''Take a look'') (strip (replace_newlines t))
            \<or> sublist (ascii ''collection'') (strip (replace_newlines t))) \<longrightarrow>
        add_testimonial c acc = acc)
   \<and> (text_prop c' = Inr t' \<and> 10 \<le> length (strip (replace_newlines t'))
        \<and> length (strip (replace_newlines t')) \<le> 400
        \<and> boilerplate (strip (replace_newlines t')) = False
        \<and> strip (replace_newlines t') \<notin> set (map testimonial_text acc') \<longrightarrow>
        add_testimonial c' acc'
          = acc' @ [\<lparr>testimonial_text = strip (replace_newlines t'),
                     testimonial_rating = or_default (extract_star_rating c') 5\<rparr>])"
proof (intro conjI impI)
  assume "collect_testimonials fuel site = Some (Inr ts)"
  then have "list_all (\<lambda>x. 10 \<le> length (testimonial_text x) \<and> length (testimonial_text x) \<le> 400
      \<and> \<not> boilerplate (testimonial_text x)) ts"
    by (rule testimonial_text_filter)
  then show "\<forall>x \<in> set ts. 10 \<le> length (testimonial_text x) \<and> length (testimonial_text x) \<le> 400
         \<and> \<not> sublist (ascii ''Take a look'') (testimonial_text x)
         \<and> \<not> sublist (ascii ''collection'') (testimonial_text x)"
    by (simp add: list_all_iff boilerplate_def)
next
  assume "text_prop c = Inr t
        \<and> (length (strip (replace_newlines t)) < 10 \<or> 400 < length (strip (replace_newlines t))
            \<or> sublist (ascii ''Take a look'') (strip (replace_newlines t))
            \<or> sublist (ascii ''collection'') (strip (replace_newlines t)))"
  then show "add_testimonial c acc = acc" using add_testimonial_rejects by blast
next
  assume "text_prop c' = Inr t' \<and> 10 \<le> length (strip (replace_newlines t'))
        \<and> length (strip (replace_newlines t')) \<le> 400
        \<and> boilerplate (strip (replace_newlines t')) = False
        \<and> strip (replace_newlines t') \<notin> set (map testimonial_text acc')"
  then show "add_testimonial c' acc'
          = acc' @ [\<lparr>testimonial_text = strip (replace_newlines t'),
                     testimonial_rating = or_default (extract_star_rating c') 5\<rparr>]"
    using add_testimonial_accepts [of c' t' acc'] by simp
qed

theorem length_filter_inclusive_witness:
  "collect_testimonials (Suc 0) bound_site
     = Some (Inr [\<lparr>testimonial_text = ascii ''Great shop'', testimonial_rating = 5\<rparr>,
                  \<lparr>testimonial_text = replicate 400 120, testimonial_rating = 2\<rparr>])
   \<and> length (ascii ''Great shop'') = 10 \<and> length (replicate 400 (120::nat)) = 400
   \<and> text_prop (elem (ascii ''Too short'') 5) = Inr (ascii ''Too short'')
   \<and> length (strip (replace_newlines (ascii ''Too short''))) < 10
   \<and> add_testimonial (elem (ascii ''Too short'') 5) [] = []
   \<and> text_prop (elem (ascii ''Great shop'') 0) = Inr (ascii ''Great shop'')
   \<and> strip (replace_newlines (ascii ''Great shop'')) = ascii ''Great shop''
   \<and> boilerplate (ascii ''Great shop'') = False
   \<and> add_testimonial (elem (ascii ''Great shop'') 0) []
       = [\<lparr>testimonial_text = ascii ''Great shop'', testimonial_rating = 5\<rparr>]"
proof -
  have a: "text_prop (elem (ascii ''Too short'') 5) = Inr (ascii ''Too short'')"
    "text_prop (elem (ascii ''Great shop'') 0) = Inr (ascii ''Great shop'')"
    by (simp_all add: elem_def)
  have b: "length (strip (replace_newlines (ascii ''Too short''))) < 10" by (simp add: text_defs)
  have c: "strip (replace_newlines (ascii ''Great shop'')) = ascii ''Great shop''"
    by (simp add: text_defs)
  have d: "boilerplate (ascii ''Great shop'') = False" by (simp add: text_defs sublist_code)
  have e: "length (ascii ''Great shop'') = 10" by (simp add: ascii_def)
  have f: "or_default (extract_star_rating (elem (ascii ''Great shop'') 0)) 5 = 5"
    by (simp add: elem_def extract_star_rating_def or_default_def)
  note t = length_filter_inclusive [of "Suc 0" bound_site
      "[\<lparr>testimonial_text = ascii ''Great shop'', testimonial_rating = 5\<rparr>,
        \<lparr>testimonial_text = replicate 400 120, testimonial_rating = 2\<rparr>]"
      "elem (ascii ''Too short'') 5" "ascii ''Too short''" "[]"
      "elem (ascii ''Great shop'') 0" "ascii ''Great shop''" "[]"]
  have r1: "add_testimonial (elem (ascii ''Too short'') 5) [] = []"
    by (rule t [THEN conjunct2, THEN conjunct1, THEN mp]) (simp add: a b)
  have r2: "add_testimonial (elem (ascii ''Great shop'') 0) []
       = [\<lparr>testimonial_text = ascii ''Great shop'', testimonial_rating = 5\<rparr>]"
    using t [THEN conjunct2, THEN conjunct2] a c d e f by simp
  from bound_site_run [of 0] a b c d e r1 r2 show ?thesis by simp
qed

section \<open>Prices\<close>

lemma sublist_trans: "sublist a b \<Longrightarrow> sublist b c \<Longrightarrow> sublist a c"
proof -
  assume "sublist a b" "sublist b c"
  then obtain p s p' s' where "b = p @ a @ s" "c = p' @ b @ s'" unfolding sublist_def by blast
  then have "c = (p' @ p) @ a @ (s @ s')" by simp
  then show ?thesis unfolding sublist_def by blast
qed

lemma digit_not_space: "is_digit U c \<Longrightarrow> \<not> is_space c"
  by (auto simp: is_digit_def digit_value_def is_space_def split: if_splits)

lemma currency_not_space: "is_currency c \<Longrightarrow> \<not> is_space c"
  by (auto simp: is_currency_def is_space_def)

lemma is_amount_ends:
  assumes "is_amount U w"
  shows "w \<noteq> [] \<and> \<not> is_space (hd w) \<and> \<not> is_space (last w)"
proof -
  from assms obtain cur ds d1 d2 where w: "w = cur @ ds @ [46, d1, d2]"
    "cur = [] \<or> (\<exists>c. cur = [c] \<and> is_currency c)" "ds \<noteq> []" "list_all (is_digit U) ds"
    "is_digit U d2"
    unfolding is_amount_def by blast
  obtain d ds' where ds: "ds = d # ds'" using w(3) by (cases ds) auto
  then have "is_digit U d" using w(4) by simp
  then have d: "\<not> is_space d" by (rule digit_not_space)
  have "last w = d2" using w(1) by simp
  moreover have "\<not> is_space d2" using w(5) by (rule digit_not_space)
  ultimately have l: "\<not> is_space (last w)" by simp
  from w(2) have "\<not> is_space (hd w)"
  proof
    assume "cur = []"
    then show ?thesis using w(1) ds d by simp
  next
    assume "\<exists>c. cur = [c] \<and> is_currency c"
    then obtain c where c: "cur = [c]" "is_currency c" by blast
    then have "\<not> is_space c" using currency_not_space by blast
    then show ?thesis using w(1) c(1) by simp
  qed
  then show ?thesis using l w(1) by simp
qed

lemma sublist_dropWhile_keep:
  assumes "w \<noteq> []" "\<not> P (hd w)"
  shows "sublist w t \<Longrightarrow> sublist w (dropWhile P t)"
proof (induction t)
  case Nil
  then show ?case by simp
next
  case (Cons a t)
  show ?case
  proof (cases "P a")
    case False
    then show ?thesis using Cons.prems by simp
  next
    case True
    have "\<not> prefix w (a # t)"
    proof
      assume "prefix w (a # t)"
      then have "hd w = a" using assms(1) by (cases w) auto
      then show False using True assms(2) by simp
    qed
    then have "sublist w t" using Cons.prems by (simp add: sublist_Cons_right)
    then show ?thesis using True Cons.IH by simp
  qed
qed

lemma sublist_strip_keep:
  assumes "w \<noteq> []" "\<not> is_space (hd w)" "\<not> is_space (last w)" "sublist w t"
  shows "sublist w (strip t)"
proof -
  have 1: "sublist w (dropWhile is_space t)"
    using assms(1,2,4) by (rule sublist_dropWhile_keep)
  have "rev w \<noteq> []" "\<not> is_space (hd (rev w))" using assms(1,3) by (simp_all add: hd_rev)
  moreover have "sublist (rev w) (rev (dropWhile is_space t))" using 1 by simp
  ultimately have "sublist (rev w) (dropWhile is_space (rev (dropWhile is_space t)))"
    by (rule sublist_dropWhile_keep)
  then show ?thesis by (simp add: strip_def sublist_rev_right)
qed

lemma sublist_strip: "sublist (strip t) t"
proof -
  have "sublist (rev (strip t)) (rev (dropWhile is_space t))"
    by (simp add: strip_def)
  then have "sublist (strip t) (dropWhile is_space t)" by simp
  then show ?thesis using sublist_trans sublist_dropWhile by blast
qed

lemma contains_amount_strip: "contains_amount U (strip t) = contains_amount U t"
proof
  assume "contains_amount U (strip t)"
  then show "contains_amount U t"
    unfolding contains_amount_def using sublist_trans sublist_strip by blast
next
  assume "contains_amount U t"
  then obtain w where w: "is_amount U w" "sublist w t" unfolding contains_amount_def by blast
  then have "sublist w (strip t)" using is_amount_ends sublist_strip_keep by blast
  then show "contains_amount U (strip t)" unfolding contains_amount_def using w(1) by blast
qed

lemma is_amount_lang: "is_amount U w \<Longrightarrow> w \<in> lang (price_rx U)"
proof -
  assume "is_amount U w"
  then obtain cur ds d1 d2 where a: "w = cur @ ds @ [46, d1, d2]"
    "cur = [] \<or> (\<exists>c. cur = [c] \<and> is_currency c)"
    "ds \<noteq> []" "list_all (is_digit U) ds" "is_digit U d1" "is_digit U d2"
    unfolding is_amount_def by blast
  have "w = cur @ [] @ ds @ [46, d1, d2] \<and> (cur = [] \<or> (\<exists>c. cur = [c] \<and> is_currency c))
      \<and> list_all is_space [] \<and> ds \<noteq> [] \<and> list_all (is_digit U) ds \<and> is_digit U d1 \<and> is_digit U d2"
    using a by simp
  then show ?thesis unfolding in_lang_price_rx by blast
qed

lemma lang_has_amount:
  assumes "w \<in> lang (price_rx U)"
  shows "\<exists>w'. is_amount U w' \<and> sublist w' w"
proof -
  from assms obtain cur ws ds d1 d2 where w: "w = cur @ ws @ ds @ [46, d1, d2]"
    "ds \<noteq> []" "list_all (is_digit U) ds" "is_digit U d1" "is_digit U d2"
    unfolding in_lang_price_rx by blast
  have "is_amount U ([] @ ds @ [46, d1, d2])"
    unfolding is_amount_def using w(2-5) by blast
  moreover have "w = (cur @ ws) @ (ds @ [46, d1, d2]) @ []" using w(1) by simp
  then have "sublist (ds @ [46, d1, d2]) w" unfolding sublist_def by blast
  ultimately show ?thesis by auto
qed

lemma contains_amount_search:
  "contains_amount U s \<longleftrightarrow> rx_search (price_rx U) s \<noteq> None"
proof -
  have "contains_amount U s \<longleftrightarrow> (\<exists>w \<in> lang (price_rx U). sublist w s)"
  proof
    assume "contains_amount U s"
    then show "\<exists>w \<in> lang (price_rx U). sublist w s"
      unfolding contains_amount_def using is_amount_lang by blast
  next
    assume "\<exists>w \<in> lang (price_rx U). sublist w s"
    then obtain w w' where "sublist w s" "is_amount U w'" "sublist w' w"
      using lang_has_amount by blast
    then show "contains_amount U s" unfolding contains_amount_def using sublist_trans by blast
  qed
  then show ?thesis by (simp add: rx_search_None)
qed

lemma price_match_not_sentinel:
  assumes "rx_search (price_rx U) s = Some m"
  shows "m \<noteq> ascii ''N/A''"
proof -
  from assms have "m \<in> lang (price_rx U)" using rx_search_Some by blast
  then obtain cur ws ds d1 d2 where "m = cur @ ws @ ds @ [46, d1, d2]" "is_digit U d2"
    unfolding in_lang_price_rx by blast
  then have "is_digit U (last m)" by simp
  moreover have "\<not> is_digit U (last (ascii ''N/A''))"
    by (simp add: ascii_def is_digit_def digit_value_def)
  ultimately show ?thesis by metis
qed

lemma parse_card_text:
  assumes "text_prop c = Inr t"
  shows "\<exists>first_line rest. split_lines (strip t) = first_line # rest
     \<and> parse_card U c = Some \<lparr>title = first_line,
          price = (case rx_search (price_rx U) (strip t) of Some m \<Rightarrow> m | None \<Rightarrow> ascii ''N/A'')\<rparr>"
proof -
  obtain first_line rest where "split_lines (strip t) = first_line # rest"
    using split_lines_nonempty [of "strip t"] by (cases "split_lines (strip t)") auto
  then show ?thesis using assms by (simp add: parse_card_def)
qed

lemma parse_card_sentinel:
  assumes "text_prop c = Inr t"
  shows "\<exists>p. parse_card U c = Some p \<and> (price p = ascii ''N/A'') = (\<not> contains_amount U t)"
proof -
  from assms obtain first_line rest where
    p: "parse_card U c = Some \<lparr>title = first_line,
          price = (case rx_search (price_rx U) (strip t) of Some m \<Rightarrow> m | None \<Rightarrow> ascii ''N/A'')\<rparr>"
    using parse_card_text by blast
  have c: "contains_amount U t \<longleftrightarrow> rx_search (price_rx U) (strip t) \<noteq> None"
    using contains_amount_strip [of U t] contains_amount_search [of U "strip t"] by simp
  show ?thesis
  proof (cases "rx_search (price_rx U) (strip t)")
    case None
    then show ?thesis using p c by simp
  next
    case (Some m)
    then have "m \<noteq> ascii ''N/A''" by (rule price_match_not_sentinel)
    then show ?thesis using p c Some by simp
  qed
qed

end
